theory Spec2Isabelle
  imports Main
begin

section \<open>Data model\<close>

text \<open>
  The program is \<^verbatim>\<open>src/four-russians.py\<close>. Python strings are modelled as
  \<^typ>\<open>string\<close>, tuples and lists of integers as \<^typ>\<open>int list\<close>, loop indices and
  lengths (always produced by \<^verbatim>\<open>range\<close> and \<^verbatim>\<open>len\<close>) as \<^typ>\<open>nat\<close>,
  scores as \<^typ>\<open>int\<close>. A \<^verbatim>\<open>defaultdict(int)\<close> keyed by coordinate pairs is a
  partial map together with the read \<open>dget\<close>, which yields 0 on a missing key.
  (Reading a missing key of a \<^verbatim>\<open>defaultdict\<close> also stores the default under that
  key; since a later read of that key yields the same 0 either way, the model
  leaves the map unchanged on reads.)

  Exceptions are values of the type \<open>error\<close>: an out-of-range list read is
  \<open>IndexError\<close>, a failed \<^verbatim>\<open>assert\<close> is \<open>AssertionError\<close>, and unbounded
  recursion of a generator is \<open>RecursionError\<close>.
\<close>

datatype error = IndexError | AssertionError | RecursionError

type_synonym grid = "nat \<times> nat \<rightharpoonup> int"

type_synonym block_key = "string \<times> string \<times> int list \<times> int list"

type_synonym grids = "block_key \<rightharpoonup> grid"

definition dget :: "grid \<Rightarrow> nat \<times> nat \<Rightarrow> int" where
  "dget dp k = (case dp k of None \<Rightarrow> 0 | Some x \<Rightarrow> x)"

text \<open>A \<^verbatim>\<open>for\<close> loop whose body may raise: the first error ends the loop.\<close>

fun foldE :: "('a \<Rightarrow> 's \<Rightarrow> error + 's) \<Rightarrow> 'a list \<Rightarrow> 's \<Rightarrow> error + 's" where
  "foldE f [] s = Inr s"
| "foldE f (x # xs) s = (case f x s of Inl e \<Rightarrow> Inl e | Inr s' \<Rightarrow> foldE f xs s')"

section \<open>\<^verbatim>\<open>construct_lcs_grid\<close>\<close>

text \<open>
  \<^verbatim>\<open>for i in range(m + 1): dp[(i, 0)] = first_col[i]\<close> and
  \<^verbatim>\<open>for j in range(n + 1): dp[(0, j)] = first_row[j]\<close>. The guards against a
  boundary list that is too short are in \<open>construct_lcs_grid\<close> below.
\<close>

definition init_first_col :: "int list \<Rightarrow> nat \<Rightarrow> grid \<Rightarrow> grid" where
  "init_first_col first_col m dp = fold (\<lambda>i d. d((i, 0) \<mapsto> first_col ! i)) [0..<m + 1] dp"

definition init_first_row :: "int list \<Rightarrow> nat \<Rightarrow> grid \<Rightarrow> grid" where
  "init_first_row first_row n dp = fold (\<lambda>j d. d((0, j) \<mapsto> first_row ! j)) [0..<n + 1] dp"

text \<open>The body of the double loop that fills the table, for one cell \<open>(i, j)\<close>.\<close>

definition fill_cell :: "string \<Rightarrow> string \<Rightarrow> nat \<Rightarrow> nat \<Rightarrow> grid \<Rightarrow> grid" where
  "fill_cell u v i j dp =
     (if u ! (i - 1) = v ! (j - 1)
      then dp((i, j) \<mapsto> max (dget dp (i, j)) (dget dp (i - 1, j - 1) + 1))
      else dp((i, j) \<mapsto> max (dget dp (i - 1, j)) (dget dp (i, j - 1))))"

definition fill_table :: "string \<Rightarrow> string \<Rightarrow> grid \<Rightarrow> grid" where
  "fill_table u v dp =
     fold (\<lambda>i d. fold (fill_cell u v i) [1..<length v + 1] d) [1..<length u + 1] dp"

definition construct_lcs_grid :: "string \<Rightarrow> string \<Rightarrow> int list \<Rightarrow> int list \<Rightarrow> error + grid" where
  "construct_lcs_grid u v first_col first_row =
     (let m = length u; n = length v in
      if length first_col < m + 1 then Inl IndexError
      else if length first_row < n + 1 then Inl IndexError
      else Inr (fill_table u v
                  (init_first_row first_row n (init_first_col first_col m Map.empty))))"

section \<open>\<^verbatim>\<open>offset_vectors_generator\<close> and \<^verbatim>\<open>precompute_grids\<close>\<close>

text \<open>
  The generator recurses until \<^verbatim>\<open>len(current_vector) == t\<close>. Started from a
  vector longer than \<open>t\<close> the test never succeeds and Python stops with a
  \<^verbatim>\<open>RecursionError\<close>; that is the second branch. The values produced are
  collected in the order in which they are yielded.
\<close>

function offset_vectors_generator :: "nat \<Rightarrow> int list \<Rightarrow> error + int list list" where
  "offset_vectors_generator t current_vector =
     (if length current_vector = t then Inr [current_vector]
      else if t < length current_vector then Inl RecursionError
      else (case offset_vectors_generator t (current_vector @ [0]) of
              Inl e \<Rightarrow> Inl e
            | Inr xs \<Rightarrow>
               (case offset_vectors_generator t (current_vector @ [1]) of
                  Inl e \<Rightarrow> Inl e
                | Inr ys \<Rightarrow> Inr (xs @ ys))))"
  by pat_completeness auto
termination
  by (relation "measure (\<lambda>(t, cur). t - length cur)") auto

definition bases :: "char list" where
  "bases = [CHR ''A'', CHR ''T'', CHR ''C'', CHR ''G'', CHR ''$'']"

fun generate_strings :: "nat \<Rightarrow> string \<Rightarrow> string list" where
  "generate_strings 0 current_string = [current_string]"
| "generate_strings (Suc l) current_string =
     concat (map (\<lambda>base. generate_strings l (current_string @ [base])) bases)"

text \<open>\<^verbatim>\<open>[sum(offsets[:i]) for i in range(t + 1)]\<close>\<close>

definition prefix_sums :: "nat \<Rightarrow> int list \<Rightarrow> int list" where
  "prefix_sums t offsets = map (\<lambda>i. sum_list (take i offsets)) [0..<t + 1]"

text \<open>The body of the innermost loop of \<^verbatim>\<open>precompute_grids\<close>.\<close>

definition store_grid :: "nat \<Rightarrow> string \<Rightarrow> string \<Rightarrow> int list \<Rightarrow> int list \<Rightarrow> grids \<Rightarrow> error + grids" where
  "store_grid t u v first_row_offsets first_col_offsets gs =
     (let first_row = prefix_sums t first_row_offsets;
          first_col = prefix_sums t first_col_offsets
      in case construct_lcs_grid u v first_col first_row of
           Inl e \<Rightarrow> Inl e
         | Inr g \<Rightarrow> Inr (gs((u, v, first_row_offsets, first_col_offsets) \<mapsto> g)))"

definition precompute_grids :: "nat \<Rightarrow> error + grids" where
  "precompute_grids t =
     (let strings_t = generate_strings t [] in
      foldE (\<lambda>u. foldE (\<lambda>v gs.
          case offset_vectors_generator t [] of
            Inl e \<Rightarrow> Inl e
          | Inr row_vectors \<Rightarrow>
              foldE (\<lambda>first_row_offsets gs'.
                  case offset_vectors_generator t [] of
                    Inl e \<Rightarrow> Inl e
                  | Inr col_vectors \<Rightarrow>
                      foldE (\<lambda>first_col_offsets. store_grid t u v first_row_offsets first_col_offsets)
                        col_vectors gs')
                row_vectors gs)
          strings_t)
        strings_t Map.empty)"

section \<open>\<^verbatim>\<open>four_russians\<close>\<close>

text \<open>
  \<^verbatim>\<open>while next_power_of_2 < max(m, n): next_power_of_2 *= 2\<close>. As a function of
  its start value the loop does not end from 0, so it is a partial function;
  that it ends from the start value 1 is proved below.
\<close>

partial_function (option) next_power_of_2_loop :: "nat \<Rightarrow> nat \<Rightarrow> nat option" where
  "next_power_of_2_loop p k = (if p < k then next_power_of_2_loop (p * 2) k else Some p)"

definition ljust :: "string \<Rightarrow> nat \<Rightarrow> char \<Rightarrow> string" where
  "ljust s w c = s @ replicate (w - length s) c"

text \<open>
  \<^verbatim>\<open>int(math.log(n, 4))\<close> for \<open>n > 0\<close>. The source computes the logarithm in
  floating point; the model takes the exact integer part of the base-4
  logarithm.
\<close>

fun log4_floor :: "nat \<Rightarrow> nat" where
  "log4_floor n = (if n < 4 then 0 else Suc (log4_floor (n div 4)))"

definition init_F :: "nat \<Rightarrow> grid" where
  "init_F n = fold (\<lambda>i F. (F((i, 0) \<mapsto> 0))((0, i) \<mapsto> 0)) [0..<n + 1] Map.empty"

text \<open>\<^verbatim>\<open>s[a:b]\<close> for \<open>0 \<le> a \<le> b\<close>: slices clamp to the string's length.\<close>

definition slice :: "string \<Rightarrow> nat \<Rightarrow> nat \<Rightarrow> string" where
  "slice s a b = drop a (take b s)"

definition first_row_offsets_of :: "grid \<Rightarrow> nat \<Rightarrow> nat \<Rightarrow> nat \<Rightarrow> int list" where
  "first_row_offsets_of F t i j =
     map (\<lambda>k. dget F (i * t, j * t + k + 1) - dget F (i * t, j * t + k)) [0..<t]"

definition first_col_offsets_of :: "grid \<Rightarrow> nat \<Rightarrow> nat \<Rightarrow> nat \<Rightarrow> int list" where
  "first_col_offsets_of F t i j =
     map (\<lambda>k. dget F (i * t + k + 1, j * t) - dget F (i * t + k, j * t)) [0..<t]"

text \<open>The key under which block \<open>(i, j)\<close> is looked up.\<close>

definition lookup_key :: "nat \<Rightarrow> string \<Rightarrow> string \<Rightarrow> grid \<Rightarrow> nat \<Rightarrow> nat \<Rightarrow> block_key" where
  "lookup_key t u v F i j =
     (slice u (i * t) ((i + 1) * t), slice v (j * t) ((j + 1) * t),
      first_row_offsets_of F t i j, first_col_offsets_of F t i j)"

text \<open>
  \<^verbatim>\<open>grids[key]\<close> on a \<^verbatim>\<open>defaultdict(defaultdict)\<close>: a missing key yields an empty
  grid, and no exception.
\<close>

definition lookup_grid :: "grids \<Rightarrow> block_key \<Rightarrow> grid" where
  "lookup_grid gs key = (case gs key of None \<Rightarrow> Map.empty | Some g \<Rightarrow> g)"

text \<open>
  The loop over \<open>k\<close> that writes the last column and the last row of a block;
  \<^verbatim>\<open>lcs_grid.get((k, t), 0)\<close> is \<open>dget\<close>.
\<close>

definition write_edges :: "nat \<Rightarrow> nat \<Rightarrow> nat \<Rightarrow> int \<Rightarrow> grid \<Rightarrow> grid \<Rightarrow> grid" where
  "write_edges t i j offset lcs_grid F =
     fold (\<lambda>k F'. (F'((i * t + k, (j + 1) * t) \<mapsto> offset + dget lcs_grid (k, t)))
                     (((i + 1) * t, j * t + k) \<mapsto> offset + dget lcs_grid (t, k)))
       [0..<t + 1] F"

definition process_block :: "grids \<Rightarrow> nat \<Rightarrow> string \<Rightarrow> string \<Rightarrow> nat \<Rightarrow> nat \<Rightarrow> grid \<Rightarrow> grid" where
  "process_block gs t u v i j F =
     (let lcs_grid = lookup_grid gs (lookup_key t u v F i j);
          offset = dget F (i * t, j * t)
      in write_edges t i j offset lcs_grid F)"

definition assemble :: "grids \<Rightarrow> nat \<Rightarrow> string \<Rightarrow> string \<Rightarrow> nat \<Rightarrow> grid \<Rightarrow> grid" where
  "assemble gs t u v subgrids F =
     fold (\<lambda>i F'. fold (process_block gs t u v i) [0..<subgrids] F') [0..<subgrids] F"

text \<open>
  The result is \<open>None\<close> when the padding loop does not end, \<open>Some (Inl e)\<close> when
  the call raises \<open>e\<close>, and \<open>Some (Inr s)\<close> when it returns the score \<open>s\<close>.
  The assertion \<^verbatim>\<open>n / t == n // t\<close> holds exactly when \<open>t\<close> divides \<open>n\<close>. Note
  that \<open>m\<close> keeps the length of the unpadded \<open>u\<close>, while \<open>n\<close> is reassigned to the
  padded length before the result \<^verbatim>\<open>F[(m, n)]\<close> is read.
\<close>

definition four_russians :: "string \<Rightarrow> string \<Rightarrow> (error + int) option" where
  "four_russians u0 v0 =
     (let m = length u0; n0 = length v0 in
      case next_power_of_2_loop 1 (max m n0) of
        None \<Rightarrow> None
      | Some next_power_of_2 \<Rightarrow> Some
         (let u = ljust u0 next_power_of_2 (CHR ''$'');
              v = ljust v0 next_power_of_2 (CHR ''$'');
              n = next_power_of_2;
              t = (if n > 0 then log4_floor n else 0)
          in if t = 0
             then (case construct_lcs_grid u v (replicate (n + 1) 0) (replicate (n + 1) 0) of
                     Inl e \<Rightarrow> Inl e
                   | Inr dp \<Rightarrow> Inr (dget dp (m, n)))
             else (case precompute_grids t of
                     Inl e \<Rightarrow> Inl e
                   | Inr gs \<Rightarrow>
                      (let F = init_F n in
                       if n mod t \<noteq> 0 then Inl AssertionError
                       else Inr (dget (assemble gs t u v (n div t) F) (m, n))))))"

section \<open>Notions derived from the program\<close>

text \<open>
  The value of the variable \<^verbatim>\<open>next_power_of_2\<close> after the padding loop, and the
  block size \<^verbatim>\<open>t\<close> chosen for a padded length, as \<open>four_russians\<close> computes
  them.
\<close>

definition padded_length :: "string \<Rightarrow> string \<Rightarrow> nat option" where
  "padded_length u v = next_power_of_2_loop 1 (max (length u) (length v))"

definition block_size :: "nat \<Rightarrow> nat" where
  "block_size n = (if n > 0 then log4_floor n else 0)"

text \<open>The four bases that the docstring of \<open>four_russians\<close> allows in its inputs.\<close>

definition alphabet :: "char set" where
  "alphabet = {CHR ''A'', CHR ''T'', CHR ''C'', CHR ''G''}"

text \<open>
  The baseline of the script's main block:
  \<^verbatim>\<open>construct_lcs_grid(s1, s2, first_row, first_col)[(n, n)]\<close> with all-zero
  boundary lists. The script runs it on strings of one length \<open>n\<close>; here each
  boundary has the length of its own string plus one, and the cell read is the
  bottom-right one.
\<close>

definition naive_lcs :: "string \<Rightarrow> string \<Rightarrow> error + int" where
  "naive_lcs u v =
     (case construct_lcs_grid u v (replicate (length u + 1) 0) (replicate (length v + 1) 0) of
        Inl e \<Rightarrow> Inl e
      | Inr dp \<Rightarrow> Inr (dget dp (length u, length v)))"

text \<open>
  The block loop of \<open>four_russians\<close> once more, now recording next to the main
  grid every key that is looked up in the table, in the order of the lookups.
  The first component is the grid of \<open>assemble\<close> (lemma \<open>fst_assemble_trace\<close>).
\<close>

definition trace_block ::
  "grids \<Rightarrow> nat \<Rightarrow> string \<Rightarrow> string \<Rightarrow> nat \<Rightarrow> nat \<Rightarrow> grid \<times> block_key list \<Rightarrow> grid \<times> block_key list" where
  "trace_block gs t u v i j st =
     (process_block gs t u v i j (fst st), snd st @ [lookup_key t u v (fst st) i j])"

definition assemble_trace ::
  "grids \<Rightarrow> nat \<Rightarrow> string \<Rightarrow> string \<Rightarrow> nat \<Rightarrow> grid \<Rightarrow> grid \<times> block_key list" where
  "assemble_trace gs t u v subgrids F =
     fold (\<lambda>i st. fold (trace_block gs t u v i) [0..<subgrids] st) [0..<subgrids] (F, [])"

section \<open>The table as the specification words it\<close>

text \<open>
  This definition follows the specification, not the source: the recurrence of
  its Base Grid Filler, \<open>score(i,j) = score(i-1,j-1) + 1\<close> on a match and the
  maximum of the upper and the left cell otherwise, under the equality of its
  data model, in which the padding sentinel \<open>$\<close> equals no symbol, itself
  included. It is compared with the program's table below.
\<close>

fun sentinel_cell :: "string \<Rightarrow> string \<Rightarrow> int list \<Rightarrow> int list \<Rightarrow> nat \<Rightarrow> nat \<Rightarrow> int" where
  "sentinel_cell a b first_col first_row 0 j = first_row ! j"
| "sentinel_cell a b first_col first_row (Suc i) 0 = first_col ! Suc i"
| "sentinel_cell a b first_col first_row (Suc i) (Suc j) =
     (if a ! i = b ! j \<and> a ! i \<noteq> CHR ''$''
      then sentinel_cell a b first_col first_row i j + 1
      else max (sentinel_cell a b first_col first_row i (Suc j))
               (sentinel_cell a b first_col first_row (Suc i) j))"

section \<open>Auxiliary definitions\<close>

text \<open>
  The value that the loops of \<open>construct_lcs_grid\<close> leave in cell \<open>(i, j)\<close>, as
  a recursive function; \<open>max 0\<close> is the read of the still unset cell
  \<^verbatim>\<open>dp[(i, j)]\<close> in the matching branch. Lemma \<open>construct_lcs_grid_eq\<close> shows
  that the folds compute exactly this table.
\<close>

fun lcs_cell :: "string \<Rightarrow> string \<Rightarrow> int list \<Rightarrow> int list \<Rightarrow> nat \<Rightarrow> nat \<Rightarrow> int" where
  "lcs_cell u v fc fr 0 j = fr ! j"
| "lcs_cell u v fc fr (Suc i) 0 = fc ! Suc i"
| "lcs_cell u v fc fr (Suc i) (Suc j) =
     (if u ! i = v ! j then max 0 (lcs_cell u v fc fr i j + 1)
      else max (lcs_cell u v fc fr i (Suc j)) (lcs_cell u v fc fr (Suc i) j))"

text \<open>
  The grid when the double loop is about to fill cell \<open>(i, j)\<close>: the two
  boundaries, the rows before \<open>i\<close>, and row \<open>i\<close> up to column \<open>j - 1\<close>.
\<close>

definition part_grid :: "string \<Rightarrow> string \<Rightarrow> int list \<Rightarrow> int list \<Rightarrow> nat \<Rightarrow> nat \<Rightarrow> grid" where
  "part_grid u v fc fr i j = (\<lambda>(a, b).
     if (b = 0 \<and> a \<le> length u) \<or> (a = 0 \<and> b \<le> length v) \<or> (a < i \<and> b \<le> length v)
        \<or> (a = i \<and> 1 \<le> b \<and> b < j)
     then Some (lcs_cell u v fc fr a b) else None)"

definition full_grid :: "string \<Rightarrow> string \<Rightarrow> int list \<Rightarrow> int list \<Rightarrow> grid" where
  "full_grid u v fc fr = (\<lambda>(a, b).
     if a \<le> length u \<and> b \<le> length v then Some (lcs_cell u v fc fr a b) else None)"

text \<open>Boundary lists: consecutive entries differ by 0 or 1; no entry is negative.\<close>

fun unit_steps :: "int list \<Rightarrow> bool" where
  "unit_steps (x # y # ys) = ((y - x = 0 \<or> y - x = 1) \<and> unit_steps (y # ys))"
| "unit_steps _ = True"

definition non_negative :: "int list \<Rightarrow> bool" where
  "non_negative xs = list_all (\<lambda>x. 0 \<le> x) xs"

definition step_ok :: "int \<Rightarrow> int \<Rightarrow> bool" where
  "step_ok a b = (b = a \<or> b = a + 1)"

abbreviation zeros :: "nat \<Rightarrow> int list" where
  "zeros n \<equiv> replicate (Suc n) 0"

text \<open>What the two generators enumerate, in their order.\<close>

fun bit_vectors :: "nat \<Rightarrow> int list list" where
  "bit_vectors 0 = [[]]"
| "bit_vectors (Suc k) = map ((#) 0) (bit_vectors k) @ map ((#) 1) (bit_vectors k)"

fun words :: "nat \<Rightarrow> string list" where
  "words 0 = [[]]"
| "words (Suc l) = concat (map (\<lambda>b. map ((#) b) (words l)) bases)"

text \<open>The table of \<open>precompute_grids\<close> in closed form (lemma \<open>precompute_grids_eq\<close>).\<close>

definition block_grid :: "nat \<Rightarrow> block_key \<Rightarrow> grid" where
  "block_grid t = (\<lambda>(u, v, r, c). full_grid u v (prefix_sums t c) (prefix_sums t r))"

definition valid_key :: "nat \<Rightarrow> block_key \<Rightarrow> bool" where
  "valid_key t = (\<lambda>(u, v, r, c).
     length u = t \<and> set u \<subseteq> set bases \<and> length v = t \<and> set v \<subseteq> set bases \<and>
     length r = t \<and> set r \<subseteq> {0, 1} \<and> length c = t \<and> set c \<subseteq> {0, 1})"

definition block_table :: "nat \<Rightarrow> grids" where
  "block_table t = (\<lambda>key. if valid_key t key then Some (block_grid t key) else None)"

text \<open>
  The full table of the padded strings, and the invariants of the block loop:
  every stored cell of the main grid holds the value of the full table, and the
  edges that the next block reads are stored.
\<close>

definition global_cell :: "string \<Rightarrow> string \<Rightarrow> nat \<Rightarrow> nat \<times> nat \<Rightarrow> int" where
  "global_cell U V n = (\<lambda>(a, b). lcs_cell U V (zeros n) (zeros n) a b)"

definition sound :: "string \<Rightarrow> string \<Rightarrow> nat \<Rightarrow> grid \<Rightarrow> bool" where
  "sound U V n F = (\<forall>a b x. F (a, b) = Some x \<longrightarrow> a \<le> n \<and> b \<le> n \<and> x = global_cell U V n (a, b))"

definition row_inv :: "string \<Rightarrow> string \<Rightarrow> nat \<Rightarrow> nat \<Rightarrow> nat \<Rightarrow> grid \<Rightarrow> bool" where
  "row_inv U V n t i F =
     (sound U V n F \<and> (\<forall>b\<le>n. F (i * t, b) \<noteq> None) \<and> (\<forall>a\<le>n. F (a, 0) \<noteq> None) \<and>
      (\<forall>a\<le>i * t. F (a, n) \<noteq> None))"

definition blk_inv :: "string \<Rightarrow> string \<Rightarrow> nat \<Rightarrow> nat \<Rightarrow> nat \<Rightarrow> nat \<Rightarrow> grid \<Rightarrow> bool" where
  "blk_inv U V n t i j F =
     (row_inv U V n t i F \<and> (\<forall>k\<le>t. F (i * t + k, j * t) \<noteq> None) \<and>
      (\<forall>b\<le>j * t. F (i * t + t, b) \<noteq> None))"

definition block_edges :: "nat \<Rightarrow> nat \<Rightarrow> nat \<Rightarrow> (nat \<times> nat) set" where
  "block_edges t i j = (\<Union>k\<in>set [0..<t + 1]. {(i * t + k, (j + 1) * t), ((i + 1) * t, j * t + k)})"

text \<open>The value of the full table of the padded strings at the cell that \<open>four_russians\<close> returns.\<close>

definition padded_value :: "string \<Rightarrow> string \<Rightarrow> nat \<Rightarrow> int" where
  "padded_value u v n =
     lcs_cell (ljust u n (CHR ''$'')) (ljust v n (CHR ''$'')) (zeros n) (zeros n) (length u) n"

text \<open>Row-by-row evaluation of the table with all-zero boundaries, for concrete inputs.\<close>

fun next_row :: "char \<Rightarrow> string \<Rightarrow> int list \<Rightarrow> int \<Rightarrow> int list" where
  "next_row c (y # ys) (d # b # prev) left =
     (let x = (if c = y then max 0 (d + 1) else max b left) in x # next_row c ys (b # prev) x)"
| "next_row c _ _ left = []"

definition lcs_rows :: "string \<Rightarrow> string \<Rightarrow> int list" where
  "lcs_rows u v = fold (\<lambda>c row. 0 # next_row c v row 0) u (replicate (Suc (length v)) 0)"

text \<open>The recursive equations of the two loops are applied by hand, never by the simplifier.\<close>

declare offset_vectors_generator.simps [simp del]

declare log4_floor.simps [simp del]

section \<open>Properties of the table of \<^verbatim>\<open>construct_lcs_grid\<close>\<close>

lemma fold_init_col:
  "fold (\<lambda>i d. d((i, 0::nat) \<mapsto> fc ! i)) [0..<k] dp =
     (\<lambda>(a, b). if b = 0 \<and> a < k then Some (fc ! a) else dp (a, b))"
  by (induction k) (auto simp: fun_eq_iff less_Suc_eq)

lemma fold_init_row:
  "fold (\<lambda>j d. d((0::nat, j) \<mapsto> fr ! j)) [0..<k] dp =
     (\<lambda>(a, b). if a = 0 \<and> b < k then Some (fr ! b) else dp (a, b))"
  by (induction k) (auto simp: fun_eq_iff less_Suc_eq)

lemma lcs_cell_col0: "lcs_cell u v fc fr a 0 = (if a = 0 then fr ! 0 else fc ! a)"
  by (cases a) auto

lemma init_part_grid:
  "init_first_row fr (length v) (init_first_col fc (length u) Map.empty) = part_grid u v fc fr 1 1"
  by (auto simp: init_first_row_def init_first_col_def fold_init_col fold_init_row part_grid_def
      fun_eq_iff lcs_cell_col0)

lemma fill_cell_part_grid:
  assumes "1 \<le> i" "i \<le> length u" "1 \<le> j" "j \<le> length v"
  shows "fill_cell u v i j (part_grid u v fc fr i j) = part_grid u v fc fr i (Suc j)"
proof -
  obtain i' j' where ij: "i = Suc i'" "j = Suc j'"
    using assms by (cases i; cases j) auto
  have r0: "dget (part_grid u v fc fr i j) (i, j) = 0"
    using assms by (simp add: dget_def part_grid_def)
  have r1: "dget (part_grid u v fc fr i j) (i', j') = lcs_cell u v fc fr i' j'"
    using assms ij by (simp add: dget_def part_grid_def)
  have r2: "dget (part_grid u v fc fr i j) (i', j) = lcs_cell u v fc fr i' j"
    using assms ij by (simp add: dget_def part_grid_def)
  have r3: "dget (part_grid u v fc fr i j) (i, j') = lcs_cell u v fc fr i j'"
    using assms ij by (simp add: dget_def part_grid_def)
  have val: "(if u ! i' = v ! j' then max (0::int) (lcs_cell u v fc fr i' j' + 1)
      else max (lcs_cell u v fc fr i' j) (lcs_cell u v fc fr i j')) = lcs_cell u v fc fr i j"
    using ij by simp
  have "fill_cell u v i j (part_grid u v fc fr i j) =
      (part_grid u v fc fr i j)((i, j) \<mapsto> lcs_cell u v fc fr i j)"
    unfolding fill_cell_def using r0 r1 r2 r3 val ij by (simp split: if_splits)
  also have "\<dots> = part_grid u v fc fr i (Suc j)"
    using assms by (auto simp: part_grid_def fun_eq_iff less_Suc_eq)
  finally show ?thesis .
qed

lemma fill_row_part_grid:
  assumes "1 \<le> i" "i \<le> length u" "k \<le> length v"
  shows "fold (fill_cell u v i) [1..<Suc k] (part_grid u v fc fr i 1) = part_grid u v fc fr i (Suc k)"
  using assms(3)
proof (induction k)
  case 0
  then show ?case by simp
next
  case (Suc k)
  have "[1..<Suc (Suc k)] = [1..<Suc k] @ [Suc k]" by simp
  then show ?case using assms(1,2) Suc by (simp add: fill_cell_part_grid del: upt_Suc)
qed

lemma part_grid_next_row:
  "i \<le> length u \<Longrightarrow> part_grid u v fc fr i (Suc (length v)) = part_grid u v fc fr (Suc i) (Suc 0)"
  by (auto simp: part_grid_def fun_eq_iff less_Suc_eq)

lemma fill_rows_part_grid:
  assumes "k \<le> length u"
  shows "fold (\<lambda>i d. fold (fill_cell u v i) [1..<Suc (length v)] d) [1..<Suc k] (part_grid u v fc fr 1 1)
         = part_grid u v fc fr (Suc k) 1"
  using assms
proof (induction k)
  case 0
  then show ?case by simp
next
  case (Suc k)
  have "[1..<Suc (Suc k)] = [1..<Suc k] @ [Suc k]" by simp
  then show ?case
    using fill_row_part_grid[of "Suc k" u "length v" v fc fr] Suc
    by (simp add: part_grid_next_row del: upt_Suc)
qed

lemma part_grid_full: "part_grid u v fc fr (Suc (length u)) (Suc 0) = full_grid u v fc fr"
  by (auto simp: part_grid_def full_grid_def fun_eq_iff)

lemma construct_lcs_grid_eq:
  "construct_lcs_grid u v fc fr =
     (if length fc < length u + 1 \<or> length fr < length v + 1 then Inl IndexError
      else Inr (full_grid u v fc fr))"
  using fill_rows_part_grid[of "length u" u v fc fr]
  by (simp add: construct_lcs_grid_def Let_def fill_table_def init_part_grid part_grid_full del: upt_Suc)

lemma unit_steps_nth:
  "unit_steps xs \<Longrightarrow> Suc k < length xs \<Longrightarrow> xs ! Suc k = xs ! k \<or> xs ! Suc k = xs ! k + 1"
proof (induction xs arbitrary: k rule: unit_steps.induct)
  case (1 x y ys)
  then show ?case by (cases k) auto
qed auto

lemma non_negative_nth: "non_negative xs \<Longrightarrow> k < length xs \<Longrightarrow> 0 \<le> xs ! k"
  by (simp add: non_negative_def list_all_length)

text \<open>Non-negativity of all cells needs non-negative boundaries only.\<close>

lemma lcs_cell_nonneg:
  "non_negative fc \<Longrightarrow> non_negative fr \<Longrightarrow> i < length fc \<Longrightarrow> j < length fr \<Longrightarrow>
     0 \<le> lcs_cell u v fc fr i j"
proof (induction u v fc fr i j rule: lcs_cell.induct)
  case (1 u v fc fr j)
  then show ?case by (simp add: non_negative_nth)
next
  case (2 u v fc fr i)
  then show ?case by (simp add: non_negative_nth)
next
  case (3 u v fc fr i j)
  then show ?case by (auto simp: max_def)
qed

lemma lcs_cell_Suc_Suc:
  assumes "non_negative fc" "non_negative fr" "i < length fc" "j < length fr"
  shows "lcs_cell u v fc fr (Suc i) (Suc j) =
     (if u ! i = v ! j then lcs_cell u v fc fr i j + 1
      else max (lcs_cell u v fc fr i (Suc j)) (lcs_cell u v fc fr (Suc i) j))"
  using lcs_cell_nonneg[OF assms, of u v] by simp

lemma lcs_cell_steps:
  assumes fc: "non_negative fc" "unit_steps fc" and fr: "non_negative fr" "unit_steps fr"
    and corner: "fc ! 0 = fr ! 0"
  shows "i < length fc \<Longrightarrow> j < length fr \<Longrightarrow>
     (0 < i \<longrightarrow> step_ok (lcs_cell u v fc fr (i - 1) j) (lcs_cell u v fc fr i j)) \<and>
     (0 < j \<longrightarrow> step_ok (lcs_cell u v fc fr i (j - 1)) (lcs_cell u v fc fr i j))"
proof (induction i arbitrary: j)
  case 0
  then show ?case using unit_steps_nth[OF fr(2), of "j - 1"] by (cases j) (auto simp: step_ok_def)
next
  case (Suc i)
  from Suc.prems have i: "i < length fc" by simp
  note outer = Suc.IH[OF i]
  note si = Suc.prems(1)
  show ?case using Suc.prems(2)
  proof (induction j)
    case 0
    then show ?case
      using unit_steps_nth[OF fc(2), of i] si corner
      by (auto simp: step_ok_def lcs_cell_col0)
  next
    case (Suc j)
    then have j: "j < length fr" by simp
    let ?a = "lcs_cell u v fc fr i j" and ?b = "lcs_cell u v fc fr i (Suc j)"
      and ?c = "lcs_cell u v fc fr (Suc i) j"
    have ab: "step_ok ?a ?b" using outer[OF Suc.prems] by simp
    have ac: "step_ok ?a ?c" using Suc.IH j by simp
    show ?case
      using ab ac lcs_cell_Suc_Suc[OF fc(1) fr(1) i j, of u v]
      by (auto simp: step_ok_def max_def)
  qed
qed

lemma lcs_cell_mono_i:
  assumes "non_negative fc" "unit_steps fc" "non_negative fr" "unit_steps fr" "fc ! 0 = fr ! 0"
    and "i \<le> i'" "i' < length fc" "j < length fr"
  shows "lcs_cell u v fc fr i j \<le> lcs_cell u v fc fr i' j"
  using assms(6,7)
proof (induction i' rule: dec_induct)
  case base
  then show ?case by simp
next
  case (step k)
  then show ?case
    using lcs_cell_steps[OF assms(1-5), of "Suc k" j u v] assms(8)
    by (auto simp: step_ok_def)
qed

lemma lcs_cell_mono_j:
  assumes "non_negative fc" "unit_steps fc" "non_negative fr" "unit_steps fr" "fc ! 0 = fr ! 0"
    and "j \<le> j'" "j' < length fr" "i < length fc"
  shows "lcs_cell u v fc fr i j \<le> lcs_cell u v fc fr i j'"
  using assms(6,7)
proof (induction j' rule: dec_induct)
  case base
  then show ?case by simp
next
  case (step k)
  then show ?case
    using lcs_cell_steps[OF assms(1-5), of i "Suc k" u v] assms(8)
    by (auto simp: step_ok_def)
qed

text \<open>All-zero boundaries.\<close>

lemma unit_steps_replicate: "unit_steps (replicate k 0)"
proof (induction k)
  case (Suc k)
  then show ?case by (cases k) auto
qed simp

lemma non_negative_replicate: "non_negative (replicate k 0)"
  by (simp add: non_negative_def list_all_length)

text \<open>A cell depends only on the prefixes of the strings and of the boundaries.\<close>

lemma lcs_cell_cong:
  "\<forall>k<i. u ! k = u' ! k \<Longrightarrow> \<forall>k<j. v ! k = v' ! k \<Longrightarrow>
   \<forall>k\<le>i. fc ! k = fc' ! k \<Longrightarrow> \<forall>k\<le>j. fr ! k = fr' ! k \<Longrightarrow>
   lcs_cell u v fc fr i j = lcs_cell u' v' fc' fr' i j"
proof (induction "i + j" arbitrary: i j rule: less_induct)
  case less
  show ?case
  proof (cases i)
    case 0
    then show ?thesis using less.prems by simp
  next
    case (Suc a)
    note i = Suc
    show ?thesis
    proof (cases j)
      case 0
      then show ?thesis using less.prems i by simp
    next
      case (Suc b)
      have 1: "lcs_cell u v fc fr a b = lcs_cell u' v' fc' fr' a b"
        using less.prems i Suc by (intro less.hyps) auto
      have 2: "lcs_cell u v fc fr a (Suc b) = lcs_cell u' v' fc' fr' a (Suc b)"
        using less.prems i Suc by (intro less.hyps) auto
      have 3: "lcs_cell u v fc fr (Suc a) b = lcs_cell u' v' fc' fr' (Suc a) b"
        using less.prems i Suc by (intro less.hyps) auto
      have "u ! a = u' ! a" "v ! b = v' ! b" using less.prems i Suc by auto
      then show ?thesis using 1 2 3 i Suc by simp
    qed
  qed
qed

lemma zeros_mono_i:
  "i \<le> i' \<Longrightarrow> i' \<le> n \<Longrightarrow> j \<le> n \<Longrightarrow>
   lcs_cell u v (zeros n) (zeros n) i j \<le> lcs_cell u v (zeros n) (zeros n) i' j"
  by (rule lcs_cell_mono_i)
     (simp_all add: non_negative_replicate unit_steps_replicate del: replicate_Suc)

lemma zeros_mono_j:
  "j \<le> j' \<Longrightarrow> j' \<le> n \<Longrightarrow> i \<le> n \<Longrightarrow>
   lcs_cell u v (zeros n) (zeros n) i j \<le> lcs_cell u v (zeros n) (zeros n) i j'"
  by (rule lcs_cell_mono_j)
     (simp_all add: non_negative_replicate unit_steps_replicate del: replicate_Suc)

lemma zeros_nonneg:
  "i \<le> n \<Longrightarrow> j \<le> n \<Longrightarrow> 0 \<le> lcs_cell u v (zeros n) (zeros n) i j"
  by (rule lcs_cell_nonneg) (simp_all add: non_negative_replicate del: replicate_Suc)

lemma zeros_steps:
  "i \<le> n \<Longrightarrow> j \<le> n \<Longrightarrow>
     (0 < i \<longrightarrow> step_ok (lcs_cell u v (zeros n) (zeros n) (i - 1) j) (lcs_cell u v (zeros n) (zeros n) i j)) \<and>
     (0 < j \<longrightarrow> step_ok (lcs_cell u v (zeros n) (zeros n) i (j - 1)) (lcs_cell u v (zeros n) (zeros n) i j))"
  by (rule lcs_cell_steps)
     (simp_all add: non_negative_replicate unit_steps_replicate del: replicate_Suc)

lemma zeros_Suc_Suc:
  "i < n \<Longrightarrow> j < n \<Longrightarrow> lcs_cell u v (zeros n) (zeros n) (Suc i) (Suc j) =
     (if u ! i = v ! j then lcs_cell u v (zeros n) (zeros n) i j + 1
      else max (lcs_cell u v (zeros n) (zeros n) i (Suc j)) (lcs_cell u v (zeros n) (zeros n) (Suc i) j))"
  by (rule lcs_cell_Suc_Suc) (simp_all add: non_negative_replicate del: replicate_Suc)

text \<open>Padding the column string with a symbol that does not occur in the row string.\<close>

lemma pad_column_step:
  assumes "\<forall>k<m. u ! k \<noteq> v ! j" "m \<le> n" "j < n"
  shows "i \<le> m \<Longrightarrow> lcs_cell u v (zeros n) (zeros n) i (Suc j) = lcs_cell u v (zeros n) (zeros n) i j"
proof (induction i)
  case 0
  then show ?case using assms by (simp add: nth_Cons')
next
  case (Suc i)
  have ne: "u ! i \<noteq> v ! j" using Suc.prems assms(1) by auto
  have "lcs_cell u v (zeros n) (zeros n) i j \<le> lcs_cell u v (zeros n) (zeros n) (Suc i) j"
    using zeros_mono_i[of i "Suc i" n j u v] Suc.prems assms by simp
  then show ?case using Suc ne by (simp del: replicate_Suc)
qed

lemma pad_columns:
  assumes "\<forall>j. l \<le> j \<and> j < n \<longrightarrow> (\<forall>k<m. u ! k \<noteq> v ! j)" "m \<le> n" "i \<le> m"
  shows "l \<le> j \<Longrightarrow> j \<le> n \<Longrightarrow>
     lcs_cell u v (zeros n) (zeros n) i j = lcs_cell u v (zeros n) (zeros n) i l"
proof (induction j rule: dec_induct)
  case base
  then show ?case by simp
next
  case (step k)
  then show ?case
    using pad_column_step[of m u v k n i] assms by simp
qed

lemma nth_ljust: "k < length s \<Longrightarrow> ljust s w c ! k = s ! k"
  by (simp add: ljust_def nth_append)

lemma nth_ljust_pad: "length s \<le> k \<Longrightarrow> k < w \<Longrightarrow> ljust s w c ! k = c"
  by (simp add: ljust_def nth_append)

lemma length_ljust: "length (ljust s w c) = max (length s) w"
  by (simp add: ljust_def)

lemma padded_cell:
  assumes "CHR ''$'' \<notin> set u" "length u \<le> n" "length v \<le> n"
  shows "lcs_cell (ljust u n (CHR ''$'')) (ljust v n (CHR ''$'')) (zeros n) (zeros n) (length u) n
       = lcs_cell u v (zeros (length u)) (zeros (length v)) (length u) (length v)"
proof -
  let ?U = "ljust u n (CHR ''$'')" and ?V = "ljust v n (CHR ''$'')"
  have ne: "\<forall>j. length v \<le> j \<and> j < n \<longrightarrow> (\<forall>k<length u. ?U ! k \<noteq> ?V ! j)"
    using assms(1) by (auto simp: nth_ljust nth_ljust_pad in_set_conv_nth)
  have "lcs_cell ?U ?V (zeros n) (zeros n) (length u) n
      = lcs_cell ?U ?V (zeros n) (zeros n) (length u) (length v)"
    using pad_columns[OF ne assms(2) le_refl assms(3) le_refl] .
  also have "\<dots> = lcs_cell u v (zeros (length u)) (zeros (length v)) (length u) (length v)"
    using assms(2,3)
    by (intro lcs_cell_cong) (auto simp: nth_ljust nth_Cons' nth_replicate simp del: replicate_Suc)
  finally show ?thesis .
qed

text \<open>Boundaries given by prefix sums of offset vectors.\<close>

lemma prefix_sums_nth: "k \<le> t \<Longrightarrow> prefix_sums t xs ! k = sum_list (take k xs)"
  unfolding prefix_sums_def by (simp del: upt_Suc)

lemma length_prefix_sums: "length (prefix_sums t xs) = Suc t"
  by (simp add: prefix_sums_def)

lemma sum_list_bits:
  "set xs \<subseteq> {0, 1} \<Longrightarrow> 0 \<le> sum_list xs \<and> sum_list xs \<le> int (length xs)"
  by (induction xs) auto

lemma prefix_sums_bounds:
  assumes "set xs \<subseteq> {0, 1}" "k \<le> t"
  shows "0 \<le> prefix_sums t xs ! k" "prefix_sums t xs ! k \<le> int k"
proof -
  have s: "set (take k xs) \<subseteq> {0, 1}" using assms(1) set_take_subset[of k xs] by blast
  show "0 \<le> prefix_sums t xs ! k" using sum_list_bits[OF s] assms(2) by (simp add: prefix_sums_nth)
  have "int (length (take k xs)) \<le> int k" by simp
  then show "prefix_sums t xs ! k \<le> int k"
    using sum_list_bits[OF s] assms(2) by (simp add: prefix_sums_nth del: length_take)
qed

lemma non_negative_prefix_sums: "set xs \<subseteq> {0, 1} \<Longrightarrow> non_negative (prefix_sums t xs)"
  by (simp add: non_negative_def list_all_length length_prefix_sums prefix_sums_bounds(1))

lemma lcs_cell_le_max:
  "\<forall>k<length fc. fc ! k \<le> int k \<Longrightarrow> \<forall>k<length fr. fr ! k \<le> int k \<Longrightarrow>
   i < length fc \<Longrightarrow> j < length fr \<Longrightarrow> lcs_cell u v fc fr i j \<le> int (max i j)"
proof (induction u v fc fr i j rule: lcs_cell.induct)
  case (3 u v fc fr i j)
  then show ?case by (auto simp: max_def split: if_splits)
qed auto

lemma sum_list_telescope:
  fixes f :: "nat \<Rightarrow> int"
  shows "sum_list (map (\<lambda>k. f (Suc k) - f k) [0..<b]) = f b - f 0"
  by (induction b) auto

lemma prefix_sums_telescope:
  fixes f :: "nat \<Rightarrow> int"
  assumes "b \<le> t"
  shows "prefix_sums t (map (\<lambda>k. f (Suc k) - f k) [0..<t]) ! b = f b - f 0"
proof -
  have "take b (map (\<lambda>k. f (Suc k) - f k) [0..<t]) = map (\<lambda>k. f (Suc k) - f k) [0..<b]"
    using assms by (simp add: take_map min_def)
  then show ?thesis
    using assms sum_list_telescope[of f b] by (simp add: prefix_sums_nth)
qed

lemma slice_nth: "a < t \<Longrightarrow> p + t \<le> length s \<Longrightarrow> slice s p (p + t) ! a = s ! (p + a)"
  by (simp add: slice_def)

lemma length_slice: "p + t \<le> length s \<Longrightarrow> length (slice s p (p + t)) = t"
  by (simp add: slice_def)

lemma block_translation:
  fixes U V :: string and n p q t :: nat
  defines "D \<equiv> lcs_cell U V (zeros n) (zeros n)"
  assumes bounds: "p + t \<le> n" "q + t \<le> n" "p + t \<le> length U" "q + t \<le> length V"
  shows "a \<le> t \<Longrightarrow> b \<le> t \<Longrightarrow>
    lcs_cell (slice U p (p + t)) (slice V q (q + t))
      (prefix_sums t (map (\<lambda>k. D (p + k + 1) q - D (p + k) q) [0..<t]))
      (prefix_sums t (map (\<lambda>k. D p (q + k + 1) - D p (q + k)) [0..<t])) a b
    = D (p + a) (q + b) - D p q"
    (is "_ \<Longrightarrow> _ \<Longrightarrow> ?L a b = _")
proof (induction "a + b" arbitrary: a b rule: less_induct)
  case less
  have col: "prefix_sums t (map (\<lambda>k. D (p + k + 1) q - D (p + k) q) [0..<t]) ! k = D (p + k) q - D p q"
    if "k \<le> t" for k
    using prefix_sums_telescope[OF that, of "\<lambda>k. D (p + k) q"] by simp
  have row: "prefix_sums t (map (\<lambda>k. D p (q + k + 1) - D p (q + k)) [0..<t]) ! k = D p (q + k) - D p q"
    if "k \<le> t" for k
    using prefix_sums_telescope[OF that, of "\<lambda>k. D p (q + k)"] by simp
  show ?case
  proof (cases a)
    case 0
    then show ?thesis using less.prems row[of b] by simp
  next
    case (Suc a')
    note a = Suc
    show ?thesis
    proof (cases b)
      case 0
      then show ?thesis using less.prems col[of a] a by simp
    next
      case (Suc b')
      have 1: "?L a' b' = D (p + a') (q + b') - D p q"
        using less.prems a Suc by (intro less.hyps) auto
      have 2: "?L a' (Suc b') = D (p + a') (q + Suc b') - D p q"
        using less.prems a Suc by (intro less.hyps) auto
      have 3: "?L (Suc a') b' = D (p + Suc a') (q + b') - D p q"
        using less.prems a Suc by (intro less.hyps) auto
      have sym: "slice U p (p + t) ! a' = U ! (p + a')" "slice V q (q + t) ! b' = V ! (q + b')"
        using less.prems a Suc bounds by (auto simp: slice_nth)
      have lt: "p + a' < n" "q + b' < n" using less.prems a Suc bounds by auto
      have ge: "D p q \<le> D (p + a') (q + b')"
      proof -
        have "D p q \<le> D (p + a') q"
          unfolding D_def using lt by (intro zeros_mono_i) auto
        also have "\<dots> \<le> D (p + a') (q + b')"
          unfolding D_def using lt by (intro zeros_mono_j) auto
        finally show ?thesis .
      qed
      have glob: "D (Suc (p + a')) (Suc (q + b')) =
         (if U ! (p + a') = V ! (q + b') then D (p + a') (q + b') + 1
          else max (D (p + a') (Suc (q + b'))) (D (Suc (p + a')) (q + b')))"
        unfolding D_def using lt by (rule zeros_Suc_Suc)
      show ?thesis
        using 1 2 3 sym ge glob a Suc by (simp add: max_def)
    qed
  qed
qed

lemma append_Nil_fun: "(@) [] = (\<lambda>x. x)"
  by auto

lemma offset_vectors_generator_eq:
  "length cur + k = t \<Longrightarrow> offset_vectors_generator t cur = Inr (map ((@) cur) (bit_vectors k))"
proof (induction k arbitrary: cur)
  case 0
  then show ?case by (subst offset_vectors_generator.simps) simp
next
  case (Suc k)
  have 0: "offset_vectors_generator t (cur @ [0]) = Inr (map ((@) (cur @ [0])) (bit_vectors k))"
    using Suc.prems by (intro Suc.IH) simp
  have 1: "offset_vectors_generator t (cur @ [1]) = Inr (map ((@) (cur @ [1])) (bit_vectors k))"
    using Suc.prems by (intro Suc.IH) simp
  show ?case
    using Suc.prems by (subst offset_vectors_generator.simps) (simp add: 0 1)
qed

lemma offset_vectors_generator_Nil: "offset_vectors_generator t [] = Inr (bit_vectors t)"
  using offset_vectors_generator_eq[of "[]" t t] by (simp add: append_Nil_fun)

lemma generate_strings_eq: "generate_strings l cur = map ((@) cur) (words l)"
proof (induction l arbitrary: cur)
  case (Suc l)
  show ?case by (simp add: Suc bases_def)
qed simp

lemma generate_strings_Nil: "generate_strings t [] = words t"
  by (simp add: generate_strings_eq append_Nil_fun)

lemma set_bit_vectors: "set (bit_vectors k) = {s. length s = k \<and> set s \<subseteq> {0, 1}}"
proof (induction k)
  case (Suc k)
  show ?case
  proof (rule set_eqI)
    fix s :: "int list"
    show "s \<in> set (bit_vectors (Suc k)) \<longleftrightarrow> s \<in> {s. length s = Suc k \<and> set s \<subseteq> {0, 1}}"
      using Suc by (cases s) auto
  qed
qed auto

lemma set_words: "set (words l) = {s. length s = l \<and> set s \<subseteq> set bases}"
proof (induction l)
  case (Suc l)
  show ?case
  proof (rule set_eqI)
    fix s :: string
    show "s \<in> set (words (Suc l)) \<longleftrightarrow> s \<in> {s. length s = Suc l \<and> set s \<subseteq> set bases}"
      using Suc by (cases s) (auto simp: bases_def)
  qed
qed auto

lemma length_bit_vectors: "length (bit_vectors k) = 2 ^ k"
  by (induction k) auto

lemma length_words: "length (words l) = 5 ^ l"
  by (induction l) (auto simp: bases_def)

lemma distinct_bit_vectors: "distinct (bit_vectors k)"
proof (rule card_distinct)
  have "card {s::int list. set s \<subseteq> {0, 1} \<and> length s = k} = card {0::int, 1} ^ k"
    by (rule card_lists_length_eq) simp
  moreover have "{s::int list. set s \<subseteq> {0, 1} \<and> length s = k} = set (bit_vectors k)"
    by (auto simp: set_bit_vectors)
  ultimately show "card (set (bit_vectors k)) = length (bit_vectors k)"
    by (simp add: length_bit_vectors numeral_2_eq_2)
qed

lemma distinct_bases: "distinct bases"
  by (simp add: bases_def)

lemma distinct_words: "distinct (words l)"
proof (rule card_distinct)
  have "card {s. set s \<subseteq> set bases \<and> length s = l} = card (set bases) ^ l"
    by (rule card_lists_length_eq) simp
  moreover have "{s. set s \<subseteq> set bases \<and> length s = l} = set (words l)"
    by (auto simp: set_words)
  moreover have "card (set bases) = 5"
    using distinct_card[OF distinct_bases] by (simp add: bases_def)
  ultimately show "card (set (words l)) = length (words l)"
    by (simp add: length_words)
qed

text \<open>A loop that stores, for every key of a set attached to each element, a value that depends on the key only.\<close>

lemma foldE_collect:
  assumes "\<And>x m. x \<in> set xs \<Longrightarrow> f x m = Inr (\<lambda>q. if q \<in> A x then Some (g q) else m q)"
  shows "foldE f xs m = Inr (\<lambda>q. if q \<in> (\<Union>x\<in>set xs. A x) then Some (g q) else m q)"
  using assms
proof (induction xs arbitrary: m)
  case Nil
  then show ?case by simp
next
  case (Cons x xs)
  have "foldE f (x # xs) m = foldE f xs (\<lambda>q. if q \<in> A x then Some (g q) else m q)"
    using Cons.prems[of x m] by simp
  also have "\<dots> = Inr (\<lambda>q. if q \<in> (\<Union>x\<in>set xs. A x) then Some (g q)
                           else (if q \<in> A x then Some (g q) else m q))"
    using Cons.prems by (intro Cons.IH) simp
  also have "\<dots> = Inr (\<lambda>q. if q \<in> (\<Union>x\<in>set (x # xs). A x) then Some (g q) else m q)"
    by (auto simp: fun_eq_iff)
  finally show ?case .
qed

lemma store_grid_eq:
  assumes "length u = t" "length v = t"
  shows "store_grid t u v r c m = Inr (\<lambda>q. if q \<in> {(u, v, r, c)} then Some (block_grid t q) else m q)"
  using assms
  by (auto simp: store_grid_def Let_def construct_lcs_grid_eq length_prefix_sums block_grid_def fun_eq_iff)

lemma precompute_grids_eq: "precompute_grids t = Inr (block_table t)"
proof -
  have inner: "foldE (\<lambda>c. store_grid t u v r c) (bit_vectors t) m =
      Inr (\<lambda>q. if q \<in> (\<Union>c\<in>set (bit_vectors t). {(u, v, r, c)}) then Some (block_grid t q) else m q)"
    if "length u = t" "length v = t" for u v r m
    by (rule foldE_collect) (rule store_grid_eq[OF that])
  have rows: "foldE (\<lambda>r gs'. foldE (\<lambda>c. store_grid t u v r c) (bit_vectors t) gs') (bit_vectors t) m =
      Inr (\<lambda>q. if q \<in> (\<Union>r\<in>set (bit_vectors t). \<Union>c\<in>set (bit_vectors t). {(u, v, r, c)})
                then Some (block_grid t q) else m q)"
    if "length u = t" "length v = t" for u v m
    by (rule foldE_collect) (rule inner[OF that])
  have vs: "foldE (\<lambda>v gs. foldE (\<lambda>r gs'. foldE (\<lambda>c. store_grid t u v r c) (bit_vectors t) gs') (bit_vectors t) gs) (words t) m =
      Inr (\<lambda>q. if q \<in> (\<Union>v\<in>set (words t). \<Union>r\<in>set (bit_vectors t). \<Union>c\<in>set (bit_vectors t). {(u, v, r, c)})
                then Some (block_grid t q) else m q)"
    if "length u = t" for u m
    by (rule foldE_collect) (rule rows[OF that], simp add: set_words)
  have us: "foldE (\<lambda>u. foldE (\<lambda>v gs. foldE (\<lambda>r gs'. foldE (\<lambda>c. store_grid t u v r c) (bit_vectors t) gs') (bit_vectors t) gs) (words t)) (words t) m =
      Inr (\<lambda>q. if q \<in> (\<Union>u\<in>set (words t). \<Union>v\<in>set (words t). \<Union>r\<in>set (bit_vectors t). \<Union>c\<in>set (bit_vectors t). {(u, v, r, c)})
                then Some (block_grid t q) else m q)" for m
    by (rule foldE_collect) (rule vs, simp add: set_words)
  have keys: "(\<Union>u\<in>set (words t). \<Union>v\<in>set (words t). \<Union>r\<in>set (bit_vectors t). \<Union>c\<in>set (bit_vectors t). {(u, v, r, c)})
      = {key. valid_key t key}"
    by (auto simp: valid_key_def set_words set_bit_vectors)
  show ?thesis
    unfolding precompute_grids_def Let_def generate_strings_Nil offset_vectors_generator_Nil
    by (simp add: us keys block_table_def)
qed

lemma fold_upt_inv:
  assumes "P 0 m0" "\<And>k m. k < s \<Longrightarrow> P k m \<Longrightarrow> P (Suc k) (f k m)"
  shows "P s (fold f [0..<s] m0)"
  using assms(2)
proof (induction s)
  case 0
  then show ?case using assms(1) by simp
next
  case (Suc s)
  have "P s (fold f [0..<s] m0)" using Suc.prems by (intro Suc.IH) auto
  then show ?case using Suc.prems[of s] by simp
qed

lemma fold_collect:
  assumes "\<And>x m. x \<in> set xs \<Longrightarrow> f x m = (\<lambda>q. if q \<in> A x then Some (g q) else m q)"
  shows "fold f xs m = (\<lambda>q. if q \<in> (\<Union>x\<in>set xs. A x) then Some (g q) else m q)"
  using assms
proof (induction xs arbitrary: m)
  case Nil
  then show ?case by simp
next
  case (Cons x xs)
  have "fold f (x # xs) m = fold f xs (\<lambda>q. if q \<in> A x then Some (g q) else m q)"
    using Cons.prems[of x m] by simp
  also have "\<dots> = (\<lambda>q. if q \<in> (\<Union>x\<in>set xs. A x) then Some (g q)
                           else (if q \<in> A x then Some (g q) else m q))"
    using Cons.prems by (intro Cons.IH) simp
  also have "\<dots> = (\<lambda>q. if q \<in> (\<Union>x\<in>set (x # xs). A x) then Some (g q) else m q)"
    by (auto simp: fun_eq_iff)
  finally show ?case .
qed

lemma init_F_eq:
  "init_F n = (\<lambda>q. if q \<in> (\<Union>i\<in>set [0..<n + 1]. {(i, 0), (0, i)}) then Some 0 else None)"
  unfolding init_F_def
  by (rule fold_collect) (auto simp: fun_eq_iff)

lemma sound_dget: "sound U V n F \<Longrightarrow> F (a, b) \<noteq> None \<Longrightarrow> dget F (a, b) = global_cell U V n (a, b)"
  by (auto simp: sound_def dget_def)

lemma row_inv_init: "0 < n \<Longrightarrow> row_inv U V n t 0 (init_F n)"
  by (auto simp: row_inv_def sound_def init_F_eq global_cell_def nth_Cons' lcs_cell_col0
      simp del: replicate_Suc split: if_splits)

lemma upd2_eq: "(m(a \<mapsto> g a))(b \<mapsto> g b) = (\<lambda>q. if q \<in> {a, b} then Some (g q) else m q)"
  by (auto simp: fun_eq_iff)

lemma process_block_step:
  assumes inv: "blk_inv U V n t i j F"
    and len: "length U = n" "length V = n"
    and alph: "set U \<subseteq> set bases" "set V \<subseteq> set bases"
    and ij: "i * t + t \<le> n" "j * t + t \<le> n"
  shows "valid_key t (lookup_key t U V F i j)"
    and "process_block (block_table t) t U V i j F =
           (\<lambda>q. if q \<in> block_edges t i j then Some (global_cell U V n q) else F q)"
proof -
  let ?p = "i * t" and ?q = "j * t"
  let ?D = "lcs_cell U V (zeros n) (zeros n)"
  have snd: "sound U V n F" and top: "\<And>b. b \<le> n \<Longrightarrow> F (?p, b) \<noteq> None"
    and left: "\<And>k. k \<le> t \<Longrightarrow> F (?p + k, ?q) \<noteq> None"
    using inv by (auto simp: blk_inv_def row_inv_def)
  have dtop: "dget F (?p, b) = ?D ?p b" if "b \<le> n" for b
    using sound_dget[OF snd top[OF that]] by (simp add: global_cell_def)
  have dleft: "dget F (?p + k, ?q) = ?D (?p + k) ?q" if "k \<le> t" for k
    using sound_dget[OF snd left[OF that]] by (simp add: global_cell_def)
  have ro: "first_row_offsets_of F t i j = map (\<lambda>k. ?D ?p (?q + k + 1) - ?D ?p (?q + k)) [0..<t]"
    unfolding first_row_offsets_of_def using ij by (intro map_cong refl) (simp add: dtop)
  have co: "first_col_offsets_of F t i j = map (\<lambda>k. ?D (?p + k + 1) ?q - ?D (?p + k) ?q) [0..<t]"
    unfolding first_col_offsets_of_def
  proof (intro map_cong refl)
    fix k assume "k \<in> set [0..<t]"
    then have "k + 1 \<le> t" "k \<le> t" by auto
    then show "dget F (?p + k + 1, ?q) - dget F (?p + k, ?q) = ?D (?p + k + 1) ?q - ?D (?p + k) ?q"
      using dleft[of "k + 1"] dleft[of k] by (simp add: add.assoc)
  qed
  have sl: "slice U ?p ((i + 1) * t) = slice U ?p (?p + t)" "slice V ?q ((j + 1) * t) = slice V ?q (?q + t)"
    by (simp_all add: add.commute)
  have key: "lookup_key t U V F i j =
      (slice U ?p (?p + t), slice V ?q (?q + t),
       map (\<lambda>k. ?D ?p (?q + k + 1) - ?D ?p (?q + k)) [0..<t],
       map (\<lambda>k. ?D (?p + k + 1) ?q - ?D (?p + k) ?q) [0..<t])"
    unfolding lookup_key_def ro co sl ..
  have lu: "length (slice U ?p (?p + t)) = t" and lv: "length (slice V ?q (?q + t)) = t"
    using ij len by (simp_all add: length_slice)
  have su: "set (slice U ?p (?p + t)) \<subseteq> set bases"
    using alph(1) set_drop_subset[of ?p "take (?p + t) U"] set_take_subset[of "?p + t" U]
    unfolding slice_def by blast
  have sv: "set (slice V ?q (?q + t)) \<subseteq> set bases"
    using alph(2) set_drop_subset[of ?q "take (?q + t) V"] set_take_subset[of "?q + t" V]
    unfolding slice_def by blast
  have rbits: "?D ?p (?q + k + 1) - ?D ?p (?q + k) \<in> {0, 1}" if "k < t" for k
    using zeros_steps[of ?p n "?q + k + 1" U V] that ij by (auto simp: step_ok_def)
  have cbits: "?D (?p + k + 1) ?q - ?D (?p + k) ?q \<in> {0, 1}" if "k < t" for k
    using zeros_steps[of "?p + k + 1" n ?q U V] that ij by (auto simp: step_ok_def)
  have rs: "set (map (\<lambda>k. ?D ?p (?q + k + 1) - ?D ?p (?q + k)) [0..<t]) \<subseteq> {0, 1}"
    unfolding set_map by (rule image_subsetI, rule rbits) simp
  have cs: "set (map (\<lambda>k. ?D (?p + k + 1) ?q - ?D (?p + k) ?q) [0..<t]) \<subseteq> {0, 1}"
    unfolding set_map by (rule image_subsetI, rule cbits) simp
  show vk: "valid_key t (lookup_key t U V F i j)"
    unfolding key valid_key_def using lu lv su sv rs cs by simp
  have grid: "lookup_grid (block_table t) (lookup_key t U V F i j) = block_grid t (lookup_key t U V F i j)"
    using vk by (simp add: lookup_grid_def block_table_def)
  have full: "block_grid t (lookup_key t U V F i j) =
      full_grid (slice U ?p (?p + t)) (slice V ?q (?q + t))
        (prefix_sums t (map (\<lambda>k. ?D (?p + k + 1) ?q - ?D (?p + k) ?q) [0..<t]))
        (prefix_sums t (map (\<lambda>k. ?D ?p (?q + k + 1) - ?D ?p (?q + k)) [0..<t]))"
    unfolding key block_grid_def by simp
  have lens: "?p + t \<le> length U" "?q + t \<le> length V" using ij len by simp_all
  have cellv: "dget (block_grid t (lookup_key t U V F i j)) (a, b) = ?D (?p + a) (?q + b) - ?D ?p ?q"
    if "a \<le> t" "b \<le> t" for a b
    unfolding full using that lu lv block_translation[OF ij lens that]
    by (simp add: full_grid_def dget_def)
  have off: "dget F (?p, ?q) = ?D ?p ?q" using dleft[of 0] by simp
  have tt: "(i + 1) * t = ?p + t" "(j + 1) * t = ?q + t" by simp_all
  have "write_edges t i j (?D ?p ?q) (block_grid t (lookup_key t U V F i j)) F =
      (\<lambda>q. if q \<in> (\<Union>k\<in>set [0..<t + 1]. {(i * t + k, (j + 1) * t), ((i + 1) * t, j * t + k)})
            then Some (global_cell U V n q) else F q)"
    unfolding write_edges_def
  proof (rule fold_collect)
    fix k and m :: grid
    assume "k \<in> set [0..<t + 1]"
    then have k: "k \<le> t" by auto
    have 1: "?D ?p ?q + dget (block_grid t (lookup_key t U V F i j)) (k, t) = global_cell U V n (i * t + k, (j + 1) * t)"
      using cellv[OF k le_refl] by (simp add: global_cell_def add.commute)
    have 2: "?D ?p ?q + dget (block_grid t (lookup_key t U V F i j)) (t, k) = global_cell U V n ((i + 1) * t, j * t + k)"
      using cellv[OF le_refl k] by (simp add: global_cell_def add.commute)
    show "(m((i * t + k, (j + 1) * t) \<mapsto> ?D ?p ?q + dget (block_grid t (lookup_key t U V F i j)) (k, t)))
             (((i + 1) * t, j * t + k) \<mapsto> ?D ?p ?q + dget (block_grid t (lookup_key t U V F i j)) (t, k))
          = (\<lambda>q. if q \<in> {(i * t + k, (j + 1) * t), ((i + 1) * t, j * t + k)}
                  then Some (global_cell U V n q) else m q)"
      by (simp only: 1 2 upd2_eq)
  qed
  then show "process_block (block_table t) t U V i j F =
           (\<lambda>q. if q \<in> block_edges t i j then Some (global_cell U V n q) else F q)"
    unfolding process_block_def Let_def grid off block_edges_def .
qed

lemma block_edges_iff:
  "(a, b) \<in> block_edges t i j \<longleftrightarrow>
     (\<exists>k\<le>t. (a = i * t + k \<and> b = j * t + t) \<or> (a = i * t + t \<and> b = j * t + k))"
  by (auto simp: block_edges_def less_Suc_eq_le add.commute)

lemma blk_step:
  assumes inv: "blk_inv U V n t i j F"
    and len: "length U = n" "length V = n"
    and alph: "set U \<subseteq> set bases" "set V \<subseteq> set bases"
    and ij: "i * t + t \<le> n" "j * t + t \<le> n"
  shows "blk_inv U V n t i (Suc j) (process_block (block_table t) t U V i j F)"
proof -
  let ?F' = "process_block (block_table t) t U V i j F"
  have F': "?F' = (\<lambda>q. if q \<in> block_edges t i j then Some (global_cell U V n q) else F q)"
    by (rule process_block_step(2)[OF assms])
  have grow: "?F' q \<noteq> None" if "F q \<noteq> None" for q
    using that by (simp add: F')
  have edge: "?F' q \<noteq> None" if "q \<in> block_edges t i j" for q
    using that by (simp add: F')
  have old: "sound U V n F" "\<And>b. b \<le> n \<Longrightarrow> F (i * t, b) \<noteq> None"
    "\<And>a. a \<le> n \<Longrightarrow> F (a, 0) \<noteq> None" "\<And>a. a \<le> i * t \<Longrightarrow> F (a, n) \<noteq> None"
    "\<And>b. b \<le> j * t \<Longrightarrow> F (i * t + t, b) \<noteq> None"
    using inv by (auto simp: blk_inv_def row_inv_def)
  have s: "sound U V n ?F'"
    unfolding sound_def
  proof (intro allI impI)
    fix a b x assume h: "?F' (a, b) = Some x"
    show "a \<le> n \<and> b \<le> n \<and> x = global_cell U V n (a, b)"
    proof (cases "(a, b) \<in> block_edges t i j")
      case True
      then have "a \<le> n \<and> b \<le> n" using ij by (auto simp: block_edges_iff)
      then show ?thesis using h True by (simp add: F')
    next
      case False
      then have "F (a, b) = Some x" using h by (simp add: F')
      then show ?thesis using old(1) by (simp add: sound_def)
    qed
  qed
  have c1: "\<forall>k\<le>t. ?F' (i * t + k, Suc j * t) \<noteq> None"
  proof (intro allI impI)
    fix k assume "k \<le> t"
    then have "(i * t + k, Suc j * t) \<in> block_edges t i j"
      by (auto simp: block_edges_iff)
    then show "?F' (i * t + k, Suc j * t) \<noteq> None" by (rule edge)
  qed
  have c2: "\<forall>b\<le>Suc j * t. ?F' (i * t + t, b) \<noteq> None"
  proof (intro allI impI)
    fix b assume b: "b \<le> Suc j * t"
    show "?F' (i * t + t, b) \<noteq> None"
    proof (cases "b \<le> j * t")
      case True
      then show ?thesis using old(5) grow by blast
    next
      case False
      then have "\<exists>k\<le>t. b = j * t + k" using b by (intro exI[of _ "b - j * t"]) auto
      then have "(i * t + t, b) \<in> block_edges t i j"
        by (auto simp: block_edges_iff)
      then show ?thesis by (rule edge)
    qed
  qed
  show ?thesis
    unfolding blk_inv_def row_inv_def
    using s c1 c2 old(2,3,4) grow by blast
qed

lemma row_step:
  assumes inv: "row_inv U V n t i F"
    and len: "length U = n" "length V = n"
    and alph: "set U \<subseteq> set bases" "set V \<subseteq> set bases"
    and n: "n = s * t" and i: "i < s"
  shows "row_inv U V n t (Suc i) (fold (process_block (block_table t) t U V i) [0..<s] F)"
proof -
  have it: "i * t + t \<le> n" using i n mult_le_mono1[of "Suc i" s t] by simp
  have start: "blk_inv U V n t i 0 F"
    using inv it by (auto simp: blk_inv_def row_inv_def)
  let ?G = "fold (process_block (block_table t) t U V i) [0..<s] F"
  have "blk_inv U V n t i s ?G"
  proof (rule fold_upt_inv[where P = "blk_inv U V n t i"])
    show "blk_inv U V n t i 0 F" by (rule start)
  next
    fix k m assume k: "k < s" and m: "blk_inv U V n t i k m"
    have kt: "k * t + t \<le> n" using k n mult_le_mono1[of "Suc k" s t] by simp
    show "blk_inv U V n t i (Suc k) (process_block (block_table t) t U V i k m)"
      by (rule blk_step[OF m len alph it kt])
  qed
  then have e: "sound U V n ?G" "\<forall>b\<le>n. ?G (i * t, b) \<noteq> None" "\<forall>a\<le>n. ?G (a, 0) \<noteq> None"
    "\<forall>a\<le>i * t. ?G (a, n) \<noteq> None" "\<forall>k\<le>t. ?G (i * t + k, n) \<noteq> None" "\<forall>b\<le>n. ?G (i * t + t, b) \<noteq> None"
    using n by (auto simp: blk_inv_def row_inv_def)
  have "\<forall>a\<le>Suc i * t. ?G (a, n) \<noteq> None"
  proof (intro allI impI)
    fix a assume a: "a \<le> Suc i * t"
    show "?G (a, n) \<noteq> None"
    proof (cases "a \<le> i * t")
      case True
      then show ?thesis using e(4) by blast
    next
      case False
      then have "a = i * t + (a - i * t)" "a - i * t \<le> t" using a by auto
      then show ?thesis using e(5) by metis
    qed
  qed
  then show ?thesis
    unfolding row_inv_def using e by (simp add: add.commute)
qed

lemma assemble_inv:
  assumes len: "length U = n" "length V = n"
    and alph: "set U \<subseteq> set bases" "set V \<subseteq> set bases"
    and n: "n = s * t" "0 < n"
  shows "row_inv U V n t s (assemble (block_table t) t U V s (init_F n))"
  unfolding assemble_def
proof (rule fold_upt_inv[where P = "row_inv U V n t"])
  show "row_inv U V n t 0 (init_F n)" using n(2) by (rule row_inv_init)
next
  fix k m assume "k < s" "row_inv U V n t k m"
  then show "row_inv U V n t (Suc k) (fold (process_block (block_table t) t U V k) [0..<s] m)"
    using row_step[OF _ len alph n(1)] by blast
qed

lemma assemble_result:
  assumes len: "length U = n" "length V = n"
    and alph: "set U \<subseteq> set bases" "set V \<subseteq> set bases"
    and n: "n = s * t" "0 < n" and m: "m \<le> n"
  shows "dget (assemble (block_table t) t U V s (init_F n)) (m, n) = lcs_cell U V (zeros n) (zeros n) m n"
proof -
  have r: "row_inv U V n t s (assemble (block_table t) t U V s (init_F n))"
    by (rule assemble_inv[OF assms(1-6)])
  then have "assemble (block_table t) t U V s (init_F n) (m, n) \<noteq> None"
    using m n(1) by (simp add: row_inv_def)
  then show ?thesis
    using r sound_dget[of U V n _ m n] by (simp add: row_inv_def global_cell_def)
qed

lemma next_power_of_2_loop_result:
  "0 < p \<Longrightarrow> \<exists>r d. next_power_of_2_loop p k = Some r \<and> r = p * 2 ^ d \<and> k \<le> r \<and>
      (if p < k then r < 2 * k else r = p)"
proof (induction "k - p" arbitrary: p rule: less_induct)
  case less
  show ?case
  proof (cases "p < k")
    case False
    then have "next_power_of_2_loop p k = Some p"
      by (subst next_power_of_2_loop.simps) simp
    then show ?thesis using False by (rule_tac x = p in exI, rule_tac x = 0 in exI) simp
  next
    case True
    have "k - p * 2 < k - p" using True less.prems by simp
    then obtain r d where r: "next_power_of_2_loop (p * 2) k = Some r" "r = p * 2 * 2 ^ d" "k \<le> r"
        "if p * 2 < k then r < 2 * k else r = p * 2"
      using less.hyps[of "p * 2"] less.prems by auto
    have "next_power_of_2_loop p k = Some r"
      using True r(1) by (subst next_power_of_2_loop.simps) simp
    moreover have "r = p * 2 ^ Suc d" using r(2) by simp
    moreover have "r < 2 * k" using r(4) True by (auto split: if_splits)
    ultimately show ?thesis using r(3) True by (rule_tac x = r in exI, rule_tac x = "Suc d" in exI) simp
  qed
qed

lemma padded_length_exists:
  "\<exists>n d. next_power_of_2_loop 1 k = Some n \<and> n = 2 ^ d \<and> k \<le> n \<and> 0 < n \<and> (n = 1 \<or> n < 2 * k)"
proof -
  obtain r d where r: "next_power_of_2_loop 1 k = Some r" "r = 1 * 2 ^ d" "k \<le> r"
      "if 1 < k then r < 2 * k else r = 1"
    using next_power_of_2_loop_result[of 1 k] by auto
  have "r = 2 ^ d" "0 < r" using r(2) by simp_all
  moreover have "r = 1 \<or> r < 2 * k" using r(4) by (cases "1 < k") simp_all
  ultimately have "next_power_of_2_loop 1 k = Some r \<and> r = 2 ^ d \<and> k \<le> r \<and> 0 < r \<and> (r = 1 \<or> r < 2 * k)"
    using r(1,3) by blast
  then show ?thesis by blast
qed

lemma log4_floor_bounds: "0 < n \<Longrightarrow> 4 ^ log4_floor n \<le> n \<and> n < 4 ^ Suc (log4_floor n)"
proof (induction n rule: log4_floor.induct)
  case (1 n)
  show ?case
  proof (cases "n < 4")
    case True
    then show ?thesis using 1 by (subst (1 2) log4_floor.simps) simp
  next
    case False
    then have "4 ^ log4_floor (n div 4) \<le> n div 4 \<and> n div 4 < 4 ^ Suc (log4_floor (n div 4))"
      using 1 by simp
    then show ?thesis using False by (subst (1 2) log4_floor.simps) auto
  qed
qed

lemma four_russians_unfold:
  assumes "next_power_of_2_loop 1 (max (length u) (length v)) = Some n" "0 < n"
  shows "four_russians u v = Some
     (let U = ljust u n (CHR ''$''); V = ljust v n (CHR ''$''); t = log4_floor n in
      if t = 0 then
        (case construct_lcs_grid U V (replicate (n + 1) 0) (replicate (n + 1) 0) of
           Inl e \<Rightarrow> Inl e | Inr dp \<Rightarrow> Inr (dget dp (length u, n)))
      else if n mod t \<noteq> 0 then Inl AssertionError
      else Inr (dget (assemble (block_table t) t U V (n div t) (init_F n)) (length u, n)))"
  using assms by (simp add: four_russians_def Let_def precompute_grids_eq)

lemma four_russians_small:
  assumes "next_power_of_2_loop 1 (max (length u) (length v)) = Some n" "0 < n"
    "max (length u) (length v) \<le> n" "log4_floor n = 0"
  shows "four_russians u v = Some (Inr (padded_value u v n))"
proof -
  have "length (ljust u n (CHR ''$'')) = n" "length (ljust v n (CHR ''$'')) = n"
    using assms(3) by (simp_all add: length_ljust)
  then show ?thesis
    using assms(3,4)
    by (simp add: four_russians_unfold[OF assms(1,2)] Let_def construct_lcs_grid_eq
        full_grid_def dget_def padded_value_def del: replicate_Suc)
qed

lemma set_ljust: "set (ljust s w c) \<subseteq> insert c (set s)"
  by (auto simp: ljust_def)

lemma alphabet_bases: "set s \<subseteq> alphabet \<Longrightarrow> set (ljust s w (CHR ''$'')) \<subseteq> set bases"
  using set_ljust[of s w "CHR ''$''"] by (auto simp: alphabet_def bases_def)

lemma four_russians_blocks:
  assumes "next_power_of_2_loop 1 (max (length u) (length v)) = Some n" "0 < n"
    "max (length u) (length v) \<le> n" "0 < log4_floor n" "n mod log4_floor n = 0"
    "set u \<subseteq> alphabet" "set v \<subseteq> alphabet"
  shows "four_russians u v = Some (Inr (padded_value u v n))"
proof -
  let ?t = "log4_floor n"
  have len: "length (ljust u n (CHR ''$'')) = n" "length (ljust v n (CHR ''$'')) = n"
    using assms(3) by (simp_all add: length_ljust)
  have n: "n = (n div ?t) * ?t" using assms(5) by auto
  have m: "length u \<le> n" using assms(3) by simp
  have "dget (assemble (block_table ?t) ?t (ljust u n (CHR ''$'')) (ljust v n (CHR ''$'')) (n div ?t) (init_F n))
          (length u, n) = padded_value u v n"
    unfolding padded_value_def
    by (rule assemble_result[OF len alphabet_bases[OF assms(6)] alphabet_bases[OF assms(7)] n assms(2) m])
  then show ?thesis
    using assms(4,5) by (simp add: four_russians_unfold[OF assms(1,2)] Let_def)
qed

lemma four_russians_assert:
  assumes "next_power_of_2_loop 1 (max (length u) (length v)) = Some n" "0 < n"
    "0 < log4_floor n" "n mod log4_floor n \<noteq> 0"
  shows "four_russians u v = Some (Inl AssertionError)"
  using assms(3,4) by (simp add: four_russians_unfold[OF assms(1,2)] Let_def)

lemma naive_lcs_eq:
  "naive_lcs u v = Inr (lcs_cell u v (zeros (length u)) (zeros (length v)) (length u) (length v))"
  by (simp add: naive_lcs_def construct_lcs_grid_eq full_grid_def dget_def del: replicate_Suc)

lemma next_row_cells:
  "j \<le> length v \<Longrightarrow>
    next_row (u ! i) (drop j v) (map (lcs_cell u v fc fr i) [j..<Suc (length v)]) (lcs_cell u v fc fr (Suc i) j)
      = map (lcs_cell u v fc fr (Suc i)) [Suc j..<Suc (length v)]"
proof (induction "length v - j" arbitrary: j)
  case 0
  then show ?case by simp
next
  case (Suc k)
  then have j: "j < length v" by simp
  have d: "drop j v = v ! j # drop (Suc j) v" using j by (simp add: Cons_nth_drop_Suc)
  have m: "map (lcs_cell u v fc fr i) [j..<Suc (length v)] =
      lcs_cell u v fc fr i j # lcs_cell u v fc fr i (Suc j) # tl (map (lcs_cell u v fc fr i) [Suc j..<Suc (length v)])"
    using j by (simp add: upt_conv_Cons del: upt_Suc)
  have m': "lcs_cell u v fc fr i (Suc j) # tl (map (lcs_cell u v fc fr i) [Suc j..<Suc (length v)])
      = map (lcs_cell u v fc fr i) [Suc j..<Suc (length v)]"
    using j by (simp add: upt_conv_Cons del: upt_Suc)
  have ih: "next_row (u ! i) (drop (Suc j) v) (map (lcs_cell u v fc fr i) [Suc j..<Suc (length v)])
       (lcs_cell u v fc fr (Suc i) (Suc j)) = map (lcs_cell u v fc fr (Suc i)) [Suc (Suc j)..<Suc (length v)]"
    using Suc.hyps(2) j by (intro Suc.hyps(1)) auto
  have r: "[Suc j..<Suc (length v)] = Suc j # [Suc (Suc j)..<Suc (length v)]"
    using j by (simp add: upt_conv_Cons del: upt_Suc)
  show ?case
    unfolding d m
    apply (simp only: next_row.simps Let_def)
    apply (simp only: m' )
    using ih r by (simp del: upt_Suc)
qed

lemma lcs_rows_prefix:
  "i \<le> length u \<Longrightarrow>
     fold (\<lambda>c row. 0 # next_row c v row 0) (take i u) (replicate (Suc (length v)) 0)
       = map (lcs_cell u v (zeros (length u)) (zeros (length v)) i) [0..<Suc (length v)]"
proof (induction i)
  case 0
  show ?case by (simp add: list_eq_iff_nth_eq nth_Cons' del: upt_Suc replicate_Suc)
next
  case (Suc i)
  let ?c = "lcs_cell u v (zeros (length u)) (zeros (length v))"
  have t: "take (Suc i) u = take i u @ [u ! i]"
    using Suc.prems by (simp add: take_Suc_conv_app_nth)
  have z: "?c (Suc i) 0 = 0" using Suc.prems by simp
  have "next_row (u ! i) (drop 0 v) (map (?c i) [0..<Suc (length v)]) (?c (Suc i) 0)
      = map (?c (Suc i)) [Suc 0..<Suc (length v)]"
    by (rule next_row_cells) simp
  then have "0 # next_row (u ! i) v (map (?c i) [0..<Suc (length v)]) 0 = map (?c (Suc i)) [0..<Suc (length v)]"
    using z by (simp add: upt_conv_Cons del: upt_Suc lcs_cell.simps)
  then show ?case using Suc by (simp add: t del: upt_Suc replicate_Suc lcs_cell.simps)
qed

lemma lcs_rows_last:
  "lcs_cell u v (zeros (length u)) (zeros (length v)) (length u) (length v) = last (lcs_rows u v)"
  using lcs_rows_prefix[of "length u" u v]
  by (simp add: lcs_rows_def last_map del: replicate_Suc lcs_cell.simps)

lemma fst_fold_trace_block:
  "fst (fold (trace_block gs t u v i) xs st) = fold (process_block gs t u v i) xs (fst st)"
  by (induction xs arbitrary: st) (simp_all add: trace_block_def)

lemma fst_fold_trace_rows:
  "fst (fold (\<lambda>i st. fold (trace_block gs t u v i) ys st) xs st)
     = fold (\<lambda>i F'. fold (process_block gs t u v i) ys F') xs (fst st)"
  by (induction xs arbitrary: st) (simp_all add: fst_fold_trace_block)

lemma fst_assemble_trace: "fst (assemble_trace gs t u v s F) = assemble gs t u v s F"
  by (simp add: assemble_trace_def assemble_def fst_fold_trace_rows)

lemma trace_valid:
  assumes len: "length U = n" "length V = n"
    and alph: "set U \<subseteq> set bases" "set V \<subseteq> set bases"
    and n: "n = s * t" "0 < n"
  shows "row_inv U V n t s (fst (assemble_trace (block_table t) t U V s (init_F n))) \<and>
         list_all (valid_key t) (snd (assemble_trace (block_table t) t U V s (init_F n))) \<and>
         length (snd (assemble_trace (block_table t) t U V s (init_F n))) = s * s"
  unfolding assemble_trace_def
proof (rule fold_upt_inv[where P = "\<lambda>i st. row_inv U V n t i (fst st) \<and> list_all (valid_key t) (snd st)
      \<and> length (snd st) = i * s"])
  show "row_inv U V n t 0 (fst (init_F n, [])) \<and> list_all (valid_key t) (snd (init_F n, [])) \<and>
      length (snd (init_F n, [])) = 0 * s"
    using row_inv_init[OF n(2)] by simp
next
  fix i st
  assume i: "i < s"
    and st: "row_inv U V n t i (fst st) \<and> list_all (valid_key t) (snd st) \<and> length (snd st) = i * s"
  have it: "i * t + t \<le> n" using i n mult_le_mono1[of "Suc i" s t] by simp
  have start: "blk_inv U V n t i 0 (fst st)"
    using st it by (auto simp: blk_inv_def row_inv_def)
  have "blk_inv U V n t i s (fst (fold (trace_block (block_table t) t U V i) [0..<s] st)) \<and>
      list_all (valid_key t) (snd (fold (trace_block (block_table t) t U V i) [0..<s] st)) \<and>
      length (snd (fold (trace_block (block_table t) t U V i) [0..<s] st)) = i * s + s"
  proof (rule fold_upt_inv[where P = "\<lambda>j st. blk_inv U V n t i j (fst st) \<and> list_all (valid_key t) (snd st)
      \<and> length (snd st) = i * s + j"])
    show "blk_inv U V n t i 0 (fst st) \<and> list_all (valid_key t) (snd st) \<and> length (snd st) = i * s + 0"
      using start st by simp
  next
    fix j st'
    assume j: "j < s"
      and st': "blk_inv U V n t i j (fst st') \<and> list_all (valid_key t) (snd st') \<and> length (snd st') = i * s + j"
    have jt: "j * t + t \<le> n" using j n mult_le_mono1[of "Suc j" s t] by simp
    have b: "blk_inv U V n t i j (fst st')" using st' by simp
    show "blk_inv U V n t i (Suc j) (fst (trace_block (block_table t) t U V i j st')) \<and>
        list_all (valid_key t) (snd (trace_block (block_table t) t U V i j st')) \<and>
        length (snd (trace_block (block_table t) t U V i j st')) = i * s + Suc j"
      using blk_step[OF b len alph it jt] process_block_step(1)[OF b len alph it jt] st'
      by (simp add: trace_block_def)
  qed
  then have blk: "blk_inv U V n t i s (fst (fold (trace_block (block_table t) t U V i) [0..<s] st))"
    and rest: "list_all (valid_key t) (snd (fold (trace_block (block_table t) t U V i) [0..<s] st))"
      "length (snd (fold (trace_block (block_table t) t U V i) [0..<s] st)) = Suc i * s"
    by simp_all
  have "row_inv U V n t (Suc i) (fold (process_block (block_table t) t U V i) [0..<s] (fst st))"
    using st by (intro row_step[OF _ len alph n(1) i]) simp
  then show "row_inv U V n t (Suc i) (fst (fold (trace_block (block_table t) t U V i) [0..<s] st)) \<and>
      list_all (valid_key t) (snd (fold (trace_block (block_table t) t U V i) [0..<s] st)) \<and>
      length (snd (fold (trace_block (block_table t) t U V i) [0..<s] st)) = Suc i * s"
    using rest by (simp add: fst_fold_trace_block)
qed

text \<open>Rows above the first sentinel of the row string.\<close>

lemma lcs_cell_sentinel:
  "non_negative fc \<Longrightarrow> non_negative fr \<Longrightarrow> i < length fc \<Longrightarrow> j < length fr \<Longrightarrow>
   \<forall>k<i. u ! k \<noteq> CHR ''$'' \<Longrightarrow> lcs_cell u v fc fr i j = sentinel_cell u v fc fr i j"
proof (induction u v fc fr i j rule: lcs_cell.induct)
  case (3 u v fc fr i j)
  have nn: "0 \<le> lcs_cell u v fc fr i j"
    using 3(4-7) by (intro lcs_cell_nonneg) auto
  have ne: "u ! i \<noteq> CHR ''$''" using 3(8) by simp
  show ?case
  proof (cases "u ! i = v ! j")
    case True
    then have "lcs_cell u v fc fr i j = sentinel_cell u v fc fr i j"
      using 3(1)[OF True] 3(4-8) by simp
    then show ?thesis using True nn ne by simp
  next
    case False
    then have "lcs_cell u v fc fr i (Suc j) = sentinel_cell u v fc fr i (Suc j)"
      "lcs_cell u v fc fr (Suc i) j = sentinel_cell u v fc fr (Suc i) j"
      using 3(2,3)[OF False] 3(4-8) by simp_all
    then show ?thesis using False by simp
  qed
qed simp_all

lemma dom_block_table: "dom (block_table t) =
   set (words t) \<times> set (words t) \<times> set (bit_vectors t) \<times> set (bit_vectors t)"
  by (auto simp: block_table_def valid_key_def set_words set_bit_vectors dom_def split: if_splits)

lemma card_dom_block_table: "card (dom (block_table t)) = 5 ^ (2 * t) * 4 ^ t"
proof -
  have w: "card (set (words t)) = 5 ^ t"
    using distinct_card[OF distinct_words, of t] by (simp add: length_words)
  have b: "card (set (bit_vectors t)) = 2 ^ t"
    using distinct_card[OF distinct_bit_vectors, of t] by (simp add: length_bit_vectors)
  have "(4::nat) ^ t = 2 ^ t * 2 ^ t"
    by (simp add: power_mult_distrib[symmetric])
  moreover have "(5::nat) ^ (2 * t) = 5 ^ t * 5 ^ t"
    by (simp add: power_add[symmetric] mult_2)
  ultimately show ?thesis
    unfolding dom_block_table card_cartesian_product w b by simp
qed

lemma dom_full_grid: "dom (full_grid u v fc fr) = {0..length u} \<times> {0..length v}"
  by (auto simp: full_grid_def dom_def split: if_splits)

lemma dget_full_grid:
  "i \<le> length u \<Longrightarrow> j \<le> length v \<Longrightarrow> dget (full_grid u v fc fr) (i, j) = lcs_cell u v fc fr i j"
  by (simp add: full_grid_def dget_def)

lemma construct_lcs_grid_Inr:
  "length u < length fc \<Longrightarrow> length v < length fr \<Longrightarrow>
     construct_lcs_grid u v fc fr = Inr (full_grid u v fc fr)"
  by (simp add: construct_lcs_grid_eq)

lemma padded_length_props:
  assumes "padded_length u v = Some n"
  shows "0 < n" "length u \<le> n" "length v \<le> n" "\<exists>d. n = 2 ^ d"
    "n = 1 \<or> n < 2 * max (length u) (length v)"
  using assms padded_length_exists[of "max (length u) (length v)"]
  by (auto simp: padded_length_def)

lemma padded_length_total: "\<exists>n. padded_length u v = Some n"
  using padded_length_exists[of "max (length u) (length v)"] by (auto simp: padded_length_def)

lemma four_russians_returns:
  assumes "padded_length u v = Some n" "block_size n = 0 \<or> n mod block_size n = 0"
  shows "\<exists>s. four_russians u v = Some (Inr s)"
proof -
  note p = padded_length_props[OF assms(1)]
  have lp: "next_power_of_2_loop 1 (max (length u) (length v)) = Some n"
    using assms(1) by (simp add: padded_length_def)
  have bs: "block_size n = log4_floor n" using p(1) by (simp add: block_size_def)
  show ?thesis
  proof (cases "log4_floor n = 0")
    case True
    then show ?thesis using four_russians_small[OF lp p(1)] p(2,3) by simp
  next
    case False
    then have "n mod log4_floor n = 0" using assms(2) bs by simp
    then show ?thesis using False by (simp add: four_russians_unfold[OF lp p(1)] Let_def)
  qed
qed

lemma four_russians_raises:
  assumes "padded_length u v = Some n" "block_size n \<noteq> 0" "n mod block_size n \<noteq> 0"
  shows "four_russians u v = Some (Inl AssertionError)"
proof -
  note p = padded_length_props[OF assms(1)]
  have lp: "next_power_of_2_loop 1 (max (length u) (length v)) = Some n"
    using assms(1) by (simp add: padded_length_def)
  have bs: "block_size n = log4_floor n" using p(1) by (simp add: block_size_def)
  show ?thesis using four_russians_assert[OF lp p(1)] assms(2,3) bs by simp
qed

lemma alphabet_no_sentinel: "set u \<subseteq> alphabet \<Longrightarrow> CHR ''$'' \<notin> set u"
  by (auto simp: alphabet_def)

lemma four_russians_correct:
  assumes "set u \<subseteq> alphabet" "set v \<subseteq> alphabet" "padded_length u v = Some n"
    "block_size n = 0 \<or> n mod block_size n = 0"
  shows "four_russians u v = Some (Inr (last (lcs_rows u v)))"
proof -
  note p = padded_length_props[OF assms(3)]
  have lp: "next_power_of_2_loop 1 (max (length u) (length v)) = Some n"
    using assms(3) by (simp add: padded_length_def)
  have bs: "block_size n = log4_floor n" using p(1) by (simp add: block_size_def)
  have mx: "max (length u) (length v) \<le> n" using p(2,3) by simp
  have "four_russians u v = Some (Inr (padded_value u v n))"
  proof (cases "log4_floor n = 0")
    case True
    then show ?thesis by (rule four_russians_small[OF lp p(1) mx])
  next
    case False
    then have "0 < log4_floor n" "n mod log4_floor n = 0" using assms(4) bs by simp_all
    then show ?thesis using four_russians_blocks[OF lp p(1) mx _ _ assms(1,2)] by simp
  qed
  moreover have "padded_value u v n = last (lcs_rows u v)"
    unfolding padded_value_def
    using padded_cell[OF alphabet_no_sentinel[OF assms(1)] p(2,3)] lcs_rows_last[of u v] by simp
  ultimately show ?thesis by simp
qed

lemma naive_lcs_rows: "naive_lcs u v = Inr (last (lcs_rows u v))"
  using naive_lcs_eq[of u v] lcs_rows_last[of u v] by simp

lemma snd_trace_block:
  "snd (trace_block gs t u v i j st) = snd st @ [lookup_key t u v (fst st) i j]"
  by (simp add: trace_block_def)

lemma trace_block_snd: "\<exists>ks. snd (fold (trace_block gs t u v i) xs st) = snd st @ ks"
proof (induction xs arbitrary: st)
  case (Cons x xs)
  obtain ks where "snd (fold (trace_block gs t u v i) xs (trace_block gs t u v i x st))
      = snd (trace_block gs t u v i x st) @ ks"
    using Cons[of "trace_block gs t u v i x st"] by blast
  then show ?case by (simp add: snd_trace_block)
qed simp

lemma trace_rows_snd:
  "\<exists>ks. snd (fold (\<lambda>i st. fold (trace_block gs t u v i) ys st) xs st) = snd st @ ks"
proof (induction xs arbitrary: st)
  case (Cons x xs)
  obtain ks where 1: "snd (fold (\<lambda>i st. fold (trace_block gs t u v i) ys st) xs
        (fold (trace_block gs t u v x) ys st))
      = snd (fold (trace_block gs t u v x) ys st) @ ks"
    using Cons[of "fold (trace_block gs t u v x) ys st"] by blast
  obtain ks' where 2: "snd (fold (trace_block gs t u v x) ys st) = snd st @ ks'"
    using trace_block_snd by blast
  show ?case using 1 2 by simp
qed simp

lemma assemble_trace_first:
  assumes "0 < s"
  shows "\<exists>ks. snd (assemble_trace gs t u v s F) = lookup_key t u v F 0 0 # ks"
proof -
  have s: "[0..<s] = 0 # [Suc 0..<s]" using assms by (simp add: upt_conv_Cons)
  let ?st1 = "trace_block gs t u v 0 0 (F, [])"
  let ?st2 = "fold (trace_block gs t u v 0) [Suc 0..<s] ?st1"
  define f where "f = (\<lambda>i st. fold (trace_block gs t u v i) [0..<s] st)"
  obtain k1 where 1: "snd ?st2 = snd ?st1 @ k1" using trace_block_snd by blast
  obtain k2 where 2: "snd (fold f [Suc 0..<s] ?st2) = snd ?st2 @ k2"
    unfolding f_def using trace_rows_snd by blast
  have a: "fold f [0..<s] (F, []) = fold f [Suc 0..<s] (f 0 (F, []))"
    by (subst s) simp
  have b: "f 0 (F, []) = ?st2"
    unfolding f_def by (subst s) simp
  have "assemble_trace gs t u v s F = fold f [Suc 0..<s] ?st2"
    unfolding assemble_trace_def using a b by (simp add: f_def)
  then show ?thesis using 1 2 by (simp add: snd_trace_block)
qed

section \<open>The claims\<close>

subsection \<open>C1: the result of \<open>four_russians\<close> against the baseline\<close>

text \<open>
  Claim C1, as amended. For all sequences \<open>u\<close>, \<open>v\<close> over the alphabet
  \<open>{A,T,C,G}\<close> whose padded length \<open>n\<close> has a block size \<open>t\<close> that is 0 or
  divides \<open>n\<close>, \<open>four_russians\<close> returns the value that the baseline
  (\<open>construct_lcs_grid\<close> with all-zero boundaries on the unpadded \<open>u\<close> and \<open>v\<close>)
  computes. Neither equal lengths nor non-empty inputs are needed.
\<close>

theorem four_russians_lcs_when_blocks_fit:
  assumes "set u \<subseteq> alphabet" "set v \<subseteq> alphabet" "padded_length u v = Some n"
    and "block_size n = 0 \<or> n mod block_size n = 0"
  shows "\<exists>s. naive_lcs u v = Inr s \<and> four_russians u v = Some (Inr s)"
  using four_russians_correct[OF assms] naive_lcs_rows[of u v] by simp


text \<open>The theorem at two strings of length 7: padded length 8, block size 1.\<close>

theorem four_russians_lcs_when_blocks_fit_witness:
  "set ''GATTACA'' \<subseteq> alphabet \<and> set ''TACCAGA'' \<subseteq> alphabet \<and>
   padded_length ''GATTACA'' ''TACCAGA'' = Some 8 \<and> block_size 8 = 1 \<and>
   naive_lcs ''GATTACA'' ''TACCAGA'' = Inr 4 \<and>
   four_russians ''GATTACA'' ''TACCAGA'' = Some (Inr 4)"
proof -
  have a: "set ''GATTACA'' \<subseteq> alphabet" "set ''TACCAGA'' \<subseteq> alphabet"
    by (simp_all add: alphabet_def)
  have p: "padded_length ''GATTACA'' ''TACCAGA'' = Some 8"
    by (simp add: padded_length_def next_power_of_2_loop.simps)
  have b: "block_size 8 = 1" by (simp add: block_size_def log4_floor.simps)
  have n: "naive_lcs ''GATTACA'' ''TACCAGA'' = Inr 4"
    unfolding naive_lcs_rows by code_simp
  show ?thesis
    using four_russians_lcs_when_blocks_fit[OF a p] a p b n by simp
qed


text \<open>
  The claim without the condition on the block size fails: for a longer input of
  33 symbols the padded length is 64 and the block size is 3, which does not
  divide 64; the call stops at its assertion, while the baseline returns 1.
\<close>

theorem four_russians_lcs_counterexample:
  "replicate 33 (CHR ''A'') \<noteq> [] \<and> ''A'' \<noteq> [] \<and>
   set (replicate 33 (CHR ''A'')) \<subseteq> alphabet \<and> set ''A'' \<subseteq> alphabet \<and>
   naive_lcs (replicate 33 (CHR ''A'')) ''A'' = Inr 1 \<and>
   four_russians (replicate 33 (CHR ''A'')) ''A'' = Some (Inl AssertionError)"
proof -
  have p: "padded_length (replicate 33 (CHR ''A'')) ''A'' = Some 64"
    by (simp add: padded_length_def next_power_of_2_loop.simps)
  have b: "block_size 64 = 3" by (simp add: block_size_def log4_floor.simps)
  have n: "naive_lcs (replicate 33 (CHR ''A'')) ''A'' = Inr 1"
    unfolding naive_lcs_rows by code_simp
  have "four_russians (replicate 33 (CHR ''A'')) ''A'' = Some (Inl AssertionError)"
    by (rule four_russians_raises[OF p]) (simp_all add: b)
  then show ?thesis using n by (simp add: alphabet_def)
qed


subsection \<open>C2: symbols outside the alphabet\<close>

text \<open>
  Claim C2, as amended. \<open>four_russians\<close> does not check its input's symbols:
  for every input that contains a symbol outside \<open>{A,T,C,G}\<close> the call behaves
  as for any other input. It returns a number when the block size of the padded
  length is 0 or divides it, and fails with the assertion error otherwise; no
  other error is raised.
\<close>

theorem four_russians_no_alphabet_check:
  assumes "\<not> (set u \<subseteq> alphabet \<and> set v \<subseteq> alphabet)"
  shows "\<exists>n. padded_length u v = Some n \<and>
     (if block_size n = 0 \<or> n mod block_size n = 0
      then \<exists>s. four_russians u v = Some (Inr s)
      else four_russians u v = Some (Inl AssertionError))"
proof -
  obtain n where n: "padded_length u v = Some n" using padded_length_total by blast
  show ?thesis
    using n four_russians_returns[OF n] four_russians_raises[OF n] by auto
qed


theorem four_russians_no_alphabet_check_witness:
  "\<not> (set ''XAAA'' \<subseteq> alphabet \<and> set ''AAAA'' \<subseteq> alphabet) \<and>
   (\<exists>s. four_russians ''XAAA'' ''AAAA'' = Some (Inr s))"
proof -
  have a: "\<not> (set ''XAAA'' \<subseteq> alphabet \<and> set ''AAAA'' \<subseteq> alphabet)"
    by (simp add: alphabet_def)
  have p: "padded_length ''XAAA'' ''AAAA'' = Some 4"
    by (simp add: padded_length_def next_power_of_2_loop.simps)
  have b: "block_size 4 = 1" by (simp add: block_size_def log4_floor.simps)
  show ?thesis
    using four_russians_no_alphabet_check[OF a] a p b by simp
qed


text \<open>On the one-symbol strings \<open>X\<close> and \<open>X\<close> the call returns 1.\<close>

theorem invalid_alphabet_counterexample:
  "CHR ''X'' \<notin> alphabet \<and> four_russians ''X'' ''X'' = Some (Inr 1)"
proof -
  have p: "next_power_of_2_loop 1 (max (length ''X'') (length ''X'')) = Some 1"
    by (simp add: next_power_of_2_loop.simps)
  have "four_russians ''X'' ''X'' = Some (Inr (padded_value ''X'' ''X'' 1))"
    by (rule four_russians_small[OF p]) (simp_all add: log4_floor.simps)
  moreover have "padded_value ''X'' ''X'' 1 = 1"
    by (simp add: padded_value_def ljust_def)
  ultimately show ?thesis by (simp add: alphabet_def)
qed


subsection \<open>C3: the block-size assertion\<close>

text \<open>
  Claim C3. For all non-empty inputs over \<open>{A,T,C,G}\<close>: the padded length \<open>n\<close>
  is the smallest power of two that is at least the longer input's length
  (\<open>n = 2 ^ d\<close>, not below that length and less than twice it), the block size
  \<open>t\<close> is the integer part of the base-4 logarithm of \<open>n\<close>
  (\<open>4 ^ t \<le> n < 4 ^ (t + 1)\<close>), and whenever \<open>t \<ge> 1\<close> the call raises an
  error if and only if \<open>t\<close> does not divide \<open>n\<close>; the error is the assertion's, and
  a call that raises returns no result.
\<close>

theorem four_russians_block_size_mismatch:
  assumes "u \<noteq> []" "v \<noteq> []" "set u \<subseteq> alphabet" "set v \<subseteq> alphabet"
  shows "\<exists>n d. padded_length u v = Some n \<and> n = 2 ^ d \<and>
     max (length u) (length v) \<le> n \<and> n < 2 * max (length u) (length v) \<and>
     4 ^ block_size n \<le> n \<and> n < 4 ^ Suc (block_size n) \<and>
     (1 \<le> block_size n \<longrightarrow>
        ((\<exists>e. four_russians u v = Some (Inl e)) \<longleftrightarrow> n mod block_size n \<noteq> 0) \<and>
        (n mod block_size n \<noteq> 0 \<longrightarrow> four_russians u v = Some (Inl AssertionError)) \<and>
        (n mod block_size n = 0 \<longrightarrow> (\<exists>s. four_russians u v = Some (Inr s))))"
proof -
  obtain n where n: "padded_length u v = Some n" using padded_length_total by blast
  note p = padded_length_props[OF n]
  obtain d where d: "n = 2 ^ d" using p(4) by blast
  have k: "1 \<le> max (length u) (length v)" using assms(1) by (cases u) auto
  have lt: "n < 2 * max (length u) (length v)" using p(5) k by auto
  have bs: "4 ^ block_size n \<le> n \<and> n < 4 ^ Suc (block_size n)"
    using log4_floor_bounds[OF p(1)] p(1) by (simp add: block_size_def)
  have r: "1 \<le> block_size n \<longrightarrow>
        ((\<exists>e. four_russians u v = Some (Inl e)) \<longleftrightarrow> n mod block_size n \<noteq> 0) \<and>
        (n mod block_size n \<noteq> 0 \<longrightarrow> four_russians u v = Some (Inl AssertionError)) \<and>
        (n mod block_size n = 0 \<longrightarrow> (\<exists>s. four_russians u v = Some (Inr s)))"
  proof (cases "n mod block_size n = 0")
    case True
    have "\<exists>s. four_russians u v = Some (Inr s)"
      by (rule four_russians_returns[OF n]) (simp add: True)
    then show ?thesis using True by auto
  next
    case False
    then show ?thesis using four_russians_raises[OF n] by auto
  qed
  show ?thesis
    using n d p(2,3) lt bs r by (rule_tac x = n in exI, rule_tac x = d in exI) simp
qed


theorem four_russians_block_size_mismatch_witness:
  "replicate 50 (CHR ''G'') \<noteq> [] \<and> ''T'' \<noteq> [] \<and>
   set (replicate 50 (CHR ''G'')) \<subseteq> alphabet \<and> set ''T'' \<subseteq> alphabet \<and>
   padded_length (replicate 50 (CHR ''G'')) ''T'' = Some 64 \<and> block_size 64 = 3 \<and>
   four_russians (replicate 50 (CHR ''G'')) ''T'' = Some (Inl AssertionError)"
proof -
  have h: "replicate 50 (CHR ''G'') \<noteq> []" "''T'' \<noteq> []"
    "set (replicate 50 (CHR ''G'')) \<subseteq> alphabet" "set ''T'' \<subseteq> alphabet"
    by (simp_all add: alphabet_def)
  have p: "padded_length (replicate 50 (CHR ''G'')) ''T'' = Some 64"
    by (simp add: padded_length_def next_power_of_2_loop.simps)
  have b: "block_size 64 = 3" by (simp add: block_size_def log4_floor.simps)
  show ?thesis
    using four_russians_block_size_mismatch[OF h] h p b by auto
qed


subsection \<open>C4: the padding sentinel\<close>

text \<open>
  Claim C4, as amended. The sentinel \<open>$\<close> equals itself under the program's
  comparison: in every grid that \<open>construct_lcs_grid\<close> builds from non-negative
  boundaries, a cell whose row symbol and column symbol are both \<open>$\<close> is scored
  as a match (the diagonal value plus one). The grid coincides with the table
  computed under the equality in which \<open>$\<close> matches nothing on every row \<open>i\<close>
  such that the first \<open>i\<close> symbols of the row string contain no \<open>$\<close>.
\<close>

theorem sentinel_matches_itself:
  assumes "length u < length first_col" "length v < length first_row"
    and "non_negative first_col" "non_negative first_row"
  shows "\<exists>g. construct_lcs_grid u v first_col first_row = Inr g \<and>
     (\<forall>i j. 1 \<le> i \<and> i \<le> length u \<and> 1 \<le> j \<and> j \<le> length v \<and>
            u ! (i - 1) = CHR ''$'' \<and> v ! (j - 1) = CHR ''$'' \<longrightarrow>
            dget g (i, j) = dget g (i - 1, j - 1) + 1) \<and>
     (\<forall>i j. i \<le> length u \<and> j \<le> length v \<and> CHR ''$'' \<notin> set (take i u) \<longrightarrow>
            g (i, j) = Some (sentinel_cell u v first_col first_row i j))"
proof -
  let ?g = "full_grid u v first_col first_row"
  have g: "construct_lcs_grid u v first_col first_row = Inr ?g"
    by (rule construct_lcs_grid_Inr[OF assms(1,2)])
  have m: "dget ?g (i, j) = dget ?g (i - 1, j - 1) + 1"
    if h: "1 \<le> i" "i \<le> length u" "1 \<le> j" "j \<le> length v"
      "u ! (i - 1) = CHR ''$''" "v ! (j - 1) = CHR ''$''" for i j
  proof -
    obtain i' j' where ij: "i = Suc i'" "j = Suc j'" using h(1,3) by (cases i; cases j) auto
    have "lcs_cell u v first_col first_row (Suc i') (Suc j') = lcs_cell u v first_col first_row i' j' + 1"
      using lcs_cell_Suc_Suc[OF assms(3,4), of i' j' u v] h ij assms(1,2) by simp
    then show ?thesis using h ij by (simp add: dget_full_grid)
  qed
  have s: "?g (i, j) = Some (sentinel_cell u v first_col first_row i j)"
    if h: "i \<le> length u" "j \<le> length v" "CHR ''$'' \<notin> set (take i u)" for i j
  proof -
    have "\<forall>k<i. u ! k \<noteq> CHR ''$''"
    proof (intro allI impI)
      fix k assume k: "k < i"
      then have "take i u ! k \<in> set (take i u)" using h(1) by (intro nth_mem) simp
      then show "u ! k \<noteq> CHR ''$''" using h(3) k by auto
    qed
    then have "lcs_cell u v first_col first_row i j = sentinel_cell u v first_col first_row i j"
      using h assms by (intro lcs_cell_sentinel) auto
    then show ?thesis using h by (simp add: full_grid_def)
  qed
  show ?thesis using g m s by blast
qed


theorem sentinel_matches_itself_witness:
  "non_negative [0, 0, 0] \<and>
   (\<exists>g. construct_lcs_grid ''A$'' ''A$'' [0, 0, 0] [0, 0, 0] = Inr g \<and>
        dget g (2, 2) = dget g (1, 1) + 1 \<and> g (1, 2) = Some 1)"
proof -
  have n: "non_negative [0, 0, 0]" by (simp add: non_negative_def)
  have l: "length ''A$'' < length [0::int, 0, 0]" by simp
  obtain g where g: "construct_lcs_grid ''A$'' ''A$'' [0, 0, 0] [0, 0, 0] = Inr g"
    and m: "\<forall>i j. 1 \<le> i \<and> i \<le> length ''A$'' \<and> 1 \<le> j \<and> j \<le> length ''A$'' \<and>
            ''A$'' ! (i - 1) = CHR ''$'' \<and> ''A$'' ! (j - 1) = CHR ''$'' \<longrightarrow>
            dget g (i, j) = dget g (i - 1, j - 1) + 1"
    and s: "\<forall>i j. i \<le> length ''A$'' \<and> j \<le> length ''A$'' \<and> CHR ''$'' \<notin> set (take i ''A$'') \<longrightarrow>
            g (i, j) = Some (sentinel_cell ''A$'' ''A$'' [0, 0, 0] [0, 0, 0] i j)"
    using sentinel_matches_itself[OF l l n n] by blast
  have "dget g (2, 2) = dget g (2 - 1, 2 - 1) + 1" using m by (intro m[rule_format]) simp
  moreover have "g (1, 2) = Some (sentinel_cell ''A$'' ''A$'' [0, 0, 0] [0, 0, 0] 1 2)"
    by (intro s[rule_format]) simp
  moreover have "sentinel_cell ''A$'' ''A$'' [0, 0, 0] [0, 0, 0] 1 2 = 1" by code_simp
  ultimately show ?thesis using n g by simp
qed


text \<open>
  The strings \<open>$\<close> and \<open>$\<close> with all-zero boundaries: the program's cell \<open>(1, 1)\<close>
  holds 1, the specification's holds 0, and the block table for \<open>t = 1\<close> stores
  the same grid under the key of two sentinel chunks.
\<close>

theorem sentinel_never_matches_counterexample:
  "(\<exists>g. construct_lcs_grid ''$'' ''$'' [0, 0] [0, 0] = Inr g \<and> dget g (1, 1) = 1) \<and>
   sentinel_cell ''$'' ''$'' [0, 0] [0, 0] 1 1 = 0 \<and>
   (\<exists>gs g. precompute_grids 1 = Inr gs \<and> gs (''$'', ''$'', [0], [0]) = Some g \<and> dget g (1, 1) = 1)"
proof -
  have 1: "construct_lcs_grid ''$'' ''$'' [0, 0] [0, 0] = Inr (full_grid ''$'' ''$'' [0, 0] [0, 0])"
    by (rule construct_lcs_grid_Inr) simp_all
  have 2: "dget (full_grid ''$'' ''$'' [0, 0] [0, 0]) (1, 1) = 1"
    by (simp add: dget_full_grid)
  have 3: "block_table 1 (''$'', ''$'', [0], [0]) = Some (block_grid 1 (''$'', ''$'', [0], [0]))"
    by (simp add: block_table_def valid_key_def bases_def)
  have 4: "dget (block_grid 1 (''$'', ''$'', [0], [0])) (1, 1) = 1"
    by (simp add: block_grid_def dget_full_grid prefix_sums_def)
  show ?thesis using 1 2 3 4 precompute_grids_eq[of 1] by simp
qed


subsection \<open>C5: the size of the block table\<close>

text \<open>
  Claim C5, as amended. For every block size \<open>t\<close>, \<open>precompute_grids\<close> enumerates
  exactly \<open>5 ^ t\<close> content strings per axis (the four bases and the sentinel),
  all different, and \<open>2 ^ t\<close> offset vectors per axis, all different, and stores
  exactly \<open>5 ^ (2 * t) * 4 ^ t\<close> block-key entries.
\<close>

theorem precompute_grids_counts:
  "length (generate_strings t []) = 5 ^ t \<and> distinct (generate_strings t []) \<and>
   (\<exists>vs. offset_vectors_generator t [] = Inr vs \<and> length vs = 2 ^ t \<and> distinct vs) \<and>
   (\<exists>gs. precompute_grids t = Inr gs \<and> card (dom gs) = 5 ^ (2 * t) * 4 ^ t)"
  by (simp add: generate_strings_Nil length_words distinct_words offset_vectors_generator_Nil
      length_bit_vectors distinct_bit_vectors precompute_grids_eq card_dom_block_table)


text \<open>For \<open>t = 1\<close> there are 5 strings and 100 entries, not 4 and 64.\<close>

theorem precompute_grids_counts_counterexample:
  "length (generate_strings 1 []) \<noteq> 4 ^ 1 \<and>
   (\<exists>gs. precompute_grids 1 = Inr gs \<and> card (dom gs) \<noteq> 4 ^ (3 * 1))"
  by (simp add: generate_strings_Nil length_words precompute_grids_eq card_dom_block_table bases_def)


subsection \<open>C6: monotonicity and unit steps of the grid\<close>

text \<open>
  Claim C6. For boundary lists that are non-negative, have consecutive
  differences 0 or 1 (hence are non-decreasing) and agree at index 0, the grid
  returned by \<open>construct_lcs_grid\<close> is non-decreasing in \<open>i\<close> and in \<open>j\<close>, and
  two cells adjacent in a column or in a row differ by 0 or 1. The strings need
  not have equal lengths.
\<close>

theorem construct_lcs_grid_unit_steps:
  assumes "length u < length first_col" "length v < length first_row"
    and "non_negative first_col" "unit_steps first_col"
    and "non_negative first_row" "unit_steps first_row"
    and "first_col ! 0 = first_row ! 0"
  shows "\<exists>g. construct_lcs_grid u v first_col first_row = Inr g \<and>
     (\<forall>i i' j. i \<le> i' \<and> i' \<le> length u \<and> j \<le> length v \<longrightarrow> dget g (i, j) \<le> dget g (i', j)) \<and>
     (\<forall>i j j'. j \<le> j' \<and> j' \<le> length v \<and> i \<le> length u \<longrightarrow> dget g (i, j) \<le> dget g (i, j')) \<and>
     (\<forall>i j. i < length u \<and> j \<le> length v \<longrightarrow>
         dget g (Suc i, j) = dget g (i, j) \<or> dget g (Suc i, j) = dget g (i, j) + 1) \<and>
     (\<forall>i j. i \<le> length u \<and> j < length v \<longrightarrow>
         dget g (i, Suc j) = dget g (i, j) \<or> dget g (i, Suc j) = dget g (i, j) + 1)"
proof -
  let ?g = "full_grid u v first_col first_row"
  note b = assms(3-7)
  have g: "construct_lcs_grid u v first_col first_row = Inr ?g"
    by (rule construct_lcs_grid_Inr[OF assms(1,2)])
  have mi: "dget ?g (i, j) \<le> dget ?g (i', j)" if "i \<le> i'" "i' \<le> length u" "j \<le> length v" for i i' j
    using that assms(1,2) lcs_cell_mono_i[OF b, of i i' j u v] by (simp add: dget_full_grid)
  have mj: "dget ?g (i, j) \<le> dget ?g (i, j')" if "j \<le> j'" "j' \<le> length v" "i \<le> length u" for i j j'
    using that assms(1,2) lcs_cell_mono_j[OF b, of j j' i u v] by (simp add: dget_full_grid)
  have si: "dget ?g (Suc i, j) = dget ?g (i, j) \<or> dget ?g (Suc i, j) = dget ?g (i, j) + 1"
    if "i < length u" "j \<le> length v" for i j
    using that assms(1,2) lcs_cell_steps[OF b, of "Suc i" j u v]
    by (simp add: dget_full_grid step_ok_def)
  have sj: "dget ?g (i, Suc j) = dget ?g (i, j) \<or> dget ?g (i, Suc j) = dget ?g (i, j) + 1"
    if "i \<le> length u" "j < length v" for i j
    using that assms(1,2) lcs_cell_steps[OF b, of i "Suc j" u v]
    by (simp add: dget_full_grid step_ok_def)
  show ?thesis using g mi mj si sj by blast
qed


theorem construct_lcs_grid_unit_steps_witness:
  "non_negative [1, 1, 2] \<and> unit_steps [1, 1, 2] \<and> non_negative [1, 2, 2] \<and> unit_steps [1, 2, 2] \<and>
   (\<exists>g. construct_lcs_grid ''AC'' ''CA'' [1, 1, 2] [1, 2, 2] = Inr g \<and>
        dget g (1, 1) \<le> dget g (2, 1) \<and> dget g (2, 1) \<le> dget g (2, 2) \<and>
        (dget g (2, 2) = dget g (1, 2) \<or> dget g (2, 2) = dget g (1, 2) + 1))"
proof -
  have h: "length ''AC'' < length [1::int, 1, 2]" "length ''CA'' < length [1::int, 2, 2]"
    "non_negative [1, 1, 2]" "unit_steps [1, 1, 2]" "non_negative [1, 2, 2]" "unit_steps [1, 2, 2]"
    "[1::int, 1, 2] ! 0 = [1, 2, 2] ! 0"
    by (simp_all add: non_negative_def)
  obtain g where g: "construct_lcs_grid ''AC'' ''CA'' [1, 1, 2] [1, 2, 2] = Inr g"
    and mi: "\<forall>i i' j. i \<le> i' \<and> i' \<le> length ''AC'' \<and> j \<le> length ''CA'' \<longrightarrow> dget g (i, j) \<le> dget g (i', j)"
    and mj: "\<forall>i j j'. j \<le> j' \<and> j' \<le> length ''CA'' \<and> i \<le> length ''AC'' \<longrightarrow> dget g (i, j) \<le> dget g (i, j')"
    and si: "\<forall>i j. i < length ''AC'' \<and> j \<le> length ''CA'' \<longrightarrow>
         dget g (Suc i, j) = dget g (i, j) \<or> dget g (Suc i, j) = dget g (i, j) + 1"
    using construct_lcs_grid_unit_steps[OF h] by blast
  have 1: "dget g (1, 1) \<le> dget g (2, 1)" by (intro mi[rule_format]) simp
  have 2: "dget g (2, 1) \<le> dget g (2, 2)" by (intro mj[rule_format]) simp
  have "1 < length ''AC'' \<and> 2 \<le> length ''CA''" by simp
  from si[rule_format, OF this]
  have 3: "dget g (2, 2) = dget g (1, 2) \<or> dget g (2, 2) = dget g (1, 2) + 1"
    unfolding Suc_1 .
  show ?thesis using h g 1 2 3 by simp
qed


subsection \<open>C7: the recurrence\<close>

text \<open>
  Claim C7, as amended. For non-negative boundary lists \<open>construct_lcs_grid\<close>
  returns the full grid on \<open>{0..|u|} \<times> {0..|v|}\<close>; every inner cell is the
  diagonal value plus one where the symbols match and the maximum of the upper
  and the left cell otherwise; row 0 equals \<open>first_row\<close>, and column 0 equals
  \<open>first_col\<close> from index 1 on. The corner \<open>(0, 0)\<close> holds \<open>first_row[0]\<close>, so
  column 0 equals \<open>first_col\<close> throughout exactly when the two lists agree at
  index 0.
\<close>

theorem construct_lcs_grid_recurrence:
  assumes "length u < length first_col" "length v < length first_row"
    and "non_negative first_col" "non_negative first_row"
  shows "\<exists>g. construct_lcs_grid u v first_col first_row = Inr g \<and>
     dom g = {0..length u} \<times> {0..length v} \<and>
     (\<forall>i j. 1 \<le> i \<and> i \<le> length u \<and> 1 \<le> j \<and> j \<le> length v \<longrightarrow>
        dget g (i, j) =
          (if u ! (i - 1) = v ! (j - 1) then dget g (i - 1, j - 1) + 1
           else max (dget g (i - 1, j)) (dget g (i, j - 1)))) \<and>
     (\<forall>j. j \<le> length v \<longrightarrow> dget g (0, j) = first_row ! j) \<and>
     (\<forall>i. 1 \<le> i \<and> i \<le> length u \<longrightarrow> dget g (i, 0) = first_col ! i)"
proof -
  let ?g = "full_grid u v first_col first_row"
  have g: "construct_lcs_grid u v first_col first_row = Inr ?g"
    by (rule construct_lcs_grid_Inr[OF assms(1,2)])
  have r: "dget ?g (i, j) =
          (if u ! (i - 1) = v ! (j - 1) then dget ?g (i - 1, j - 1) + 1
           else max (dget ?g (i - 1, j)) (dget ?g (i, j - 1)))"
    if h: "1 \<le> i" "i \<le> length u" "1 \<le> j" "j \<le> length v" for i j
  proof -
    obtain i' j' where ij: "i = Suc i'" "j = Suc j'" using h(1,3) by (cases i; cases j) auto
    have "i' < length first_col" "j' < length first_row" using h ij assms(1,2) by simp_all
    from lcs_cell_Suc_Suc[OF assms(3,4) this, of u v] show ?thesis
      using h ij by (simp add: dget_full_grid)
  qed
  have r0: "dget ?g (0, j) = first_row ! j" if "j \<le> length v" for j
    using that by (simp add: dget_full_grid)
  have c0: "dget ?g (i, 0) = first_col ! i" if "1 \<le> i" "i \<le> length u" for i
    using that by (simp add: dget_full_grid lcs_cell_col0)
  show ?thesis using g r r0 c0 dom_full_grid[of u v first_col first_row] by blast
qed


theorem construct_lcs_grid_recurrence_witness:
  "non_negative [3, 3, 4] \<and> non_negative [0, 1, 1] \<and>
   (\<exists>g. construct_lcs_grid ''AC'' ''AT'' [3, 3, 4] [0, 1, 1] = Inr g \<and>
        dget g (1, 1) = dget g (0, 0) + 1 \<and> dget g (2, 2) = max (dget g (1, 2)) (dget g (2, 1)) \<and>
        dget g (0, 0) = 0 \<and> dget g (1, 0) = 3 \<and> dget g (2, 0) = 4)"
proof -
  have h: "length ''AC'' < length [3::int, 3, 4]" "length ''AT'' < length [0::int, 1, 1]"
    "non_negative [3, 3, 4]" "non_negative [0, 1, 1]"
    by (simp_all add: non_negative_def)
  obtain g where g: "construct_lcs_grid ''AC'' ''AT'' [3, 3, 4] [0, 1, 1] = Inr g"
    and r: "\<forall>i j. 1 \<le> i \<and> i \<le> length ''AC'' \<and> 1 \<le> j \<and> j \<le> length ''AT'' \<longrightarrow>
        dget g (i, j) =
          (if ''AC'' ! (i - 1) = ''AT'' ! (j - 1) then dget g (i - 1, j - 1) + 1
           else max (dget g (i - 1, j)) (dget g (i, j - 1)))"
    and r0: "\<forall>j. j \<le> length ''AT'' \<longrightarrow> dget g (0, j) = [0, 1, 1] ! j"
    and c0: "\<forall>i. 1 \<le> i \<and> i \<le> length ''AC'' \<longrightarrow> dget g (i, 0) = [3, 3, 4] ! i"
    using construct_lcs_grid_recurrence[OF h] by blast
  have 1: "dget g (1, 1) = dget g (0, 0) + 1" using r[rule_format, of 1 1] by simp
  have 2: "dget g (2, 2) = max (dget g (1, 2)) (dget g (2, 1))" using r[rule_format, of 2 2] by simp
  have 3: "dget g (0, 0) = 0" using r0[rule_format, of 0] by simp
  have 4: "dget g (1, 0) = 3" using c0[rule_format, of 1] by simp
  have 5: "dget g (2, 0) = 4" using c0[rule_format, of 2] by simp
  show ?thesis using h g 1 2 3 4 5 by simp
qed


text \<open>
  Boundary lists \<open>[1, 1]\<close> and \<open>[0, 0]\<close> meet every condition of the claim, and
  the corner of the grid holds 0, not \<open>first_col[0] = 1\<close>.
\<close>

theorem construct_lcs_grid_column_counterexample:
  "non_negative [1, 1] \<and> sorted [1, 1 :: int] \<and> unit_steps [1, 1] \<and>
   non_negative [0, 0] \<and> sorted [0, 0 :: int] \<and> unit_steps [0, 0] \<and>
   length ''A'' = length ''T'' \<and>
   (\<exists>g. construct_lcs_grid ''A'' ''T'' [1, 1] [0, 0] = Inr g \<and> dget g (0, 0) \<noteq> [1, 1] ! 0)"
proof -
  have 1: "construct_lcs_grid ''A'' ''T'' [1, 1] [0, 0] = Inr (full_grid ''A'' ''T'' [1, 1] [0, 0])"
    by (rule construct_lcs_grid_Inr) simp_all
  have 2: "dget (full_grid ''A'' ''T'' [1, 1] [0, 0]) (0, 0) = 0"
    by (simp add: dget_full_grid)
  show ?thesis using 1 2 by (simp add: non_negative_def)
qed


subsection \<open>C8: the values of the block table\<close>

text \<open>
  Claim C8. For every block size \<open>t\<close> and every key of the table, the grid
  stored by \<open>precompute_grids\<close> is defined exactly on \<open>{0..t} \<times> {0..t}\<close>, all its
  values lie between 0 and \<open>t\<close>, and its value at \<open>(0, 0)\<close> is 0.
\<close>

theorem precompute_grids_values:
  "\<exists>gs. precompute_grids t = Inr gs \<and>
     (\<forall>key g. gs key = Some g \<longrightarrow>
        dom g = {0..t} \<times> {0..t} \<and> g (0, 0) = Some 0 \<and>
        (\<forall>i j. i \<le> t \<and> j \<le> t \<longrightarrow> 0 \<le> dget g (i, j) \<and> dget g (i, j) \<le> int t))"
proof -
  have v: "dom g = {0..t} \<times> {0..t} \<and> g (0, 0) = Some 0 \<and>
        (\<forall>i j. i \<le> t \<and> j \<le> t \<longrightarrow> 0 \<le> dget g (i, j) \<and> dget g (i, j) \<le> int t)"
    if h: "block_table t key = Some g" for key g
  proof -
    obtain u w r c where key: "key = (u, w, r, c)" by (cases key) auto
    have vk: "valid_key t key" and g: "g = block_grid t key"
      using h by (auto simp: block_table_def split: if_splits)
    have k: "length u = t" "length w = t" "set r \<subseteq> {0, 1}" "set c \<subseteq> {0, 1}"
      using vk key by (simp_all add: valid_key_def)
    let ?fc = "prefix_sums t c" and ?fr = "prefix_sums t r"
    have gf: "g = full_grid u w ?fc ?fr" using g key by (simp add: block_grid_def)
    have d: "dom g = {0..t} \<times> {0..t}" unfolding gf dom_full_grid k ..
    have z: "g (0, 0) = Some 0" unfolding gf by (simp add: full_grid_def prefix_sums_nth)
    have b: "0 \<le> dget g (i, j) \<and> dget g (i, j) \<le> int t" if ij: "i \<le> t" "j \<le> t" for i j
    proof -
      have lo: "0 \<le> lcs_cell u w ?fc ?fr i j"
        using ij by (intro lcs_cell_nonneg non_negative_prefix_sums k) (simp_all add: length_prefix_sums)
      have "lcs_cell u w ?fc ?fr i j \<le> int (max i j)"
        using ij prefix_sums_bounds(2)[OF k(4), of _ t] prefix_sums_bounds(2)[OF k(3), of _ t]
        by (intro lcs_cell_le_max) (simp_all add: length_prefix_sums)
      then have hi: "lcs_cell u w ?fc ?fr i j \<le> int t" using ij by simp
      show ?thesis unfolding gf using lo hi ij k by (simp add: dget_full_grid)
    qed
    show ?thesis using d z b by blast
  qed
  show ?thesis using v by (simp add: precompute_grids_eq)
qed


theorem precompute_grids_values_witness:
  "\<exists>gs g. precompute_grids 1 = Inr gs \<and> gs (''A'', ''A'', [1], [0]) = Some g \<and>
      g (0, 0) = Some 0 \<and> 0 \<le> dget g (1, 1) \<and> dget g (1, 1) \<le> 1"
proof -
  obtain gs where gs: "precompute_grids 1 = Inr gs"
    and v: "\<forall>key g. gs key = Some g \<longrightarrow>
        dom g = {0..1} \<times> {0..1} \<and> g (0, 0) = Some 0 \<and>
        (\<forall>i j. i \<le> 1 \<and> j \<le> 1 \<longrightarrow> 0 \<le> dget g (i, j) \<and> dget g (i, j) \<le> int 1)"
    using precompute_grids_values[of 1] by blast
  have "gs = block_table 1" using gs by (simp add: precompute_grids_eq)
  then have k: "gs (''A'', ''A'', [1], [0]) = Some (block_grid 1 (''A'', ''A'', [1], [0]))"
    by (simp add: block_table_def valid_key_def bases_def)
  from v[rule_format, OF k] have "block_grid 1 (''A'', ''A'', [1], [0]) (0, 0) = Some 0"
    "0 \<le> dget (block_grid 1 (''A'', ''A'', [1], [0])) (1, 1)"
    "dget (block_grid 1 (''A'', ''A'', [1], [0])) (1, 1) \<le> 1"
    by simp_all
  then show ?thesis using gs k by blast
qed


subsection \<open>C9: the four scenarios\<close>

text \<open>
  Claim C9. \<open>four_russians\<close> returns 11, 31, 4 and 0 on the four pairs of
  strings of the specification.
\<close>

theorem four_russians_scenarios:
  "four_russians ''GACGTAGCATAAGCGC'' ''TGCAACGTATAACGGG'' = Some (Inr 11) \<and>
   four_russians ''TCAGTACTAGTTATCAGTCTAGTCAGCTACTA'' ''GTCAGTACTAGTTATCAGTCTAGTCAGCTACT'' = Some (Inr 31) \<and>
   four_russians ''ATCG'' ''ATCG'' = Some (Inr 4) \<and>
   four_russians ''AAAA'' ''TTTT'' = Some (Inr 0)"
proof -
  have b: "block_size 16 = 2" "block_size 32 = 2" "block_size 4 = 1"
    by (simp_all add: block_size_def log4_floor.simps)
  have 1: "four_russians ''GACGTAGCATAAGCGC'' ''TGCAACGTATAACGGG'' =
      Some (Inr (last (lcs_rows ''GACGTAGCATAAGCGC'' ''TGCAACGTATAACGGG'')))"
    by (rule four_russians_correct[where n = 16])
       (simp_all add: alphabet_def padded_length_def next_power_of_2_loop.simps b)
  have 2: "four_russians ''TCAGTACTAGTTATCAGTCTAGTCAGCTACTA'' ''GTCAGTACTAGTTATCAGTCTAGTCAGCTACT'' =
      Some (Inr (last (lcs_rows ''TCAGTACTAGTTATCAGTCTAGTCAGCTACTA'' ''GTCAGTACTAGTTATCAGTCTAGTCAGCTACT'')))"
    by (rule four_russians_correct[where n = 32])
       (simp_all add: alphabet_def padded_length_def next_power_of_2_loop.simps b)
  have 3: "four_russians ''ATCG'' ''ATCG'' = Some (Inr (last (lcs_rows ''ATCG'' ''ATCG'')))"
    by (rule four_russians_correct[where n = 4])
       (simp_all add: alphabet_def padded_length_def next_power_of_2_loop.simps b)
  have 4: "four_russians ''AAAA'' ''TTTT'' = Some (Inr (last (lcs_rows ''AAAA'' ''TTTT'')))"
    by (rule four_russians_correct[where n = 4])
       (simp_all add: alphabet_def padded_length_def next_power_of_2_loop.simps b)
  have v1: "last (lcs_rows ''GACGTAGCATAAGCGC'' ''TGCAACGTATAACGGG'') = 11" by code_simp
  have v2: "last (lcs_rows ''TCAGTACTAGTTATCAGTCTAGTCAGCTACTA'' ''GTCAGTACTAGTTATCAGTCTAGTCAGCTACT'') = 31"
    by code_simp
  have v3: "last (lcs_rows ''ATCG'' ''ATCG'') = 4" by code_simp
  have v4: "last (lcs_rows ''AAAA'' ''TTTT'') = 0" by code_simp
  show ?thesis unfolding 1 2 3 4 v1 v2 v3 v4 by simp
qed


subsection \<open>C10: the keys looked up in the table\<close>

text \<open>
  Claim C10, as amended. For inputs over \<open>{A,T,C,G}\<close>, in every execution that
  reaches the block loop (block size \<open>t \<ge> 1\<close> dividing the padded length \<open>n\<close>),
  each of the \<open>(n / t)\<^sup>2\<close> keys looked up is a key of the table: its chunks are
  strings of length \<open>t\<close> over \<open>{A,T,C,G,$}\<close>, its offsets are 0 or 1, and the
  grid found holds every cell \<open>(k, t)\<close> and \<open>(t, k)\<close> that the loop reads, so
  no default value is written into the main grid.
\<close>

theorem looked_up_keys_present:
  assumes "set u \<subseteq> alphabet" "set v \<subseteq> alphabet" "padded_length u v = Some n"
    and "1 \<le> block_size n" "n mod block_size n = 0"
  shows "\<exists>gs tr. precompute_grids (block_size n) = Inr gs \<and>
     tr = assemble_trace gs (block_size n) (ljust u n (CHR ''$'')) (ljust v n (CHR ''$''))
            (n div block_size n) (init_F n) \<and>
     four_russians u v = Some (Inr (dget (fst tr) (length u, n))) \<and>
     length (snd tr) = (n div block_size n) * (n div block_size n) \<and>
     (\<forall>key\<in>set (snd tr). valid_key (block_size n) key \<and>
        (\<exists>g. gs key = Some g \<and>
           (\<forall>k. k \<le> block_size n \<longrightarrow> g (k, block_size n) \<noteq> None \<and> g (block_size n, k) \<noteq> None)))"
proof -
  let ?t = "block_size n"
  let ?U = "ljust u n (CHR ''$'')" and ?V = "ljust v n (CHR ''$'')"
  let ?tr = "assemble_trace (block_table ?t) ?t ?U ?V (n div ?t) (init_F n)"
  note p = padded_length_props[OF assms(3)]
  have lp: "next_power_of_2_loop 1 (max (length u) (length v)) = Some n"
    using assms(3) by (simp add: padded_length_def)
  have bs: "?t = log4_floor n" using p(1) by (simp add: block_size_def)
  have len: "length ?U = n" "length ?V = n" using p(2,3) by (simp_all add: length_ljust)
  have n: "n = (n div ?t) * ?t" using assms(5) by auto
  have tv: "list_all (valid_key ?t) (snd ?tr)" "length (snd ?tr) = (n div ?t) * (n div ?t)"
    using trace_valid[OF len alphabet_bases[OF assms(1)] alphabet_bases[OF assms(2)] n p(1)]
    by simp_all
  have fr: "four_russians u v = Some (Inr (dget (fst ?tr) (length u, n)))"
    using assms(4,5) bs
    by (simp add: four_russians_unfold[OF lp p(1)] Let_def fst_assemble_trace)
  have keys: "valid_key ?t key \<and>
        (\<exists>g. block_table ?t key = Some g \<and>
           (\<forall>k. k \<le> ?t \<longrightarrow> g (k, ?t) \<noteq> None \<and> g (?t, k) \<noteq> None))"
    if "key \<in> set (snd ?tr)" for key
  proof -
    have vk: "valid_key ?t key" using tv(1) that by (simp add: list_all_iff)
    obtain a b r c where key: "key = (a, b, r, c)" by (cases key) auto
    have l: "length a = ?t" "length b = ?t" using vk key by (simp_all add: valid_key_def)
    have "block_grid ?t key (k, ?t) \<noteq> None \<and> block_grid ?t key (?t, k) \<noteq> None" if "k \<le> ?t" for k
      using that l key by (simp add: block_grid_def full_grid_def)
    then show ?thesis using vk by (simp add: block_table_def)
  qed
  show ?thesis
    using fr tv(2) keys precompute_grids_eq[of ?t] by simp
qed


theorem looked_up_keys_present_witness:
  "set ''ATCG'' \<subseteq> alphabet \<and> set ''GCTA'' \<subseteq> alphabet \<and>
   padded_length ''ATCG'' ''GCTA'' = Some 4 \<and> block_size 4 = 1 \<and>
   (\<exists>gs tr. precompute_grids 1 = Inr gs \<and>
      tr = assemble_trace gs 1 ''ATCG'' ''GCTA'' 4 (init_F 4) \<and>
      four_russians ''ATCG'' ''GCTA'' = Some (Inr (dget (fst tr) (4, 4))) \<and>
      length (snd tr) = 4 * 4 \<and> list_all (\<lambda>key. gs key \<noteq> None) (snd tr))"
proof -
  have a: "set ''ATCG'' \<subseteq> alphabet" "set ''GCTA'' \<subseteq> alphabet" by (simp_all add: alphabet_def)
  have p: "padded_length ''ATCG'' ''GCTA'' = Some 4"
    by (simp add: padded_length_def next_power_of_2_loop.simps)
  have b: "block_size 4 = 1" by (simp add: block_size_def log4_floor.simps)
  have c: "1 \<le> block_size 4" "4 mod block_size 4 = 0" by (simp_all add: b)
  have l: "ljust ''ATCG'' 4 (CHR ''$'') = ''ATCG''" "ljust ''GCTA'' 4 (CHR ''$'') = ''GCTA''"
    "length ''ATCG'' = 4"
    by (simp_all add: ljust_def)
  note th = looked_up_keys_present[OF a p c, unfolded b l div_by_1]
  then obtain gs tr where gs: "precompute_grids 1 = Inr gs"
    and tr: "tr = assemble_trace gs 1 ''ATCG'' ''GCTA'' 4 (init_F 4)"
    and fr: "four_russians ''ATCG'' ''GCTA'' = Some (Inr (dget (fst tr) (4, 4)))"
    and ln: "length (snd tr) = 4 * 4"
    and ks: "\<forall>key\<in>set (snd tr). valid_key 1 key \<and> (\<exists>g. gs key = Some g \<and>
           (\<forall>k. k \<le> 1 \<longrightarrow> g (k, 1) \<noteq> None \<and> g (1, k) \<noteq> None))"
    by blast
  have "list_all (\<lambda>key. gs key \<noteq> None) (snd tr)"
    unfolding list_all_iff using ks by blast
  then show ?thesis using a p b gs tr fr ln by blast
qed


text \<open>
  Without the condition on the alphabet the claim fails: on \<open>XAAA\<close> and \<open>AAAA\<close>
  the block loop is reached and the first key looked up is not in the table.
\<close>

theorem looked_up_keys_counterexample:
  "padded_length ''XAAA'' ''AAAA'' = Some 4 \<and> block_size 4 = 1 \<and> 4 mod block_size 4 = 0 \<and>
   (\<exists>gs ks. precompute_grids 1 = Inr gs \<and>
      snd (assemble_trace gs 1 (ljust ''XAAA'' 4 (CHR ''$'')) (ljust ''AAAA'' 4 (CHR ''$'')) 4 (init_F 4))
        = (''X'', ''A'', [0], [0]) # ks \<and>
      gs (''X'', ''A'', [0], [0]) = None)"
proof -
  have p: "padded_length ''XAAA'' ''AAAA'' = Some 4"
    by (simp add: padded_length_def next_power_of_2_loop.simps)
  have b: "block_size 4 = 1" by (simp add: block_size_def log4_floor.simps)
  have k: "lookup_key 1 (ljust ''XAAA'' 4 (CHR ''$'')) (ljust ''AAAA'' 4 (CHR ''$'')) (init_F 4) 0 0
      = (''X'', ''A'', [0], [0])"
    by (simp add: lookup_key_def slice_def ljust_def first_row_offsets_of_def
        first_col_offsets_of_def init_F_eq dget_def)
  obtain ks where ks: "snd (assemble_trace (block_table 1) 1 (ljust ''XAAA'' 4 (CHR ''$''))
        (ljust ''AAAA'' 4 (CHR ''$'')) 4 (init_F 4)) = (''X'', ''A'', [0], [0]) # ks"
    using assemble_trace_first[of 4 "block_table 1" 1 "ljust ''XAAA'' 4 (CHR ''$'')"
        "ljust ''AAAA'' 4 (CHR ''$'')" "init_F 4"] unfolding k by auto
  have n: "block_table 1 (''X'', ''A'', [0], [0]) = None"
    by (simp add: block_table_def valid_key_def bases_def)
  show ?thesis using p b ks n precompute_grids_eq[of 1] by simp
qed

end
